theory Spec2Isabelle
  imports Main "HOL-Library.Finite_Map"
begin

unbundle bit_operations_syntax

section \<open>Data model of package bus\<close>

text \<open>
  A \<^verbatim>\<open>Handler\<close> is a Go interface value. What \<^verbatim>\<open>Unsubscribe\<close> does with it is
  compare it with \<^verbatim>\<open>==\<close>, and Go compares two interface values by dynamic type and
  dynamic value:
  \<^item> \<open>HNil\<close> is the nil interface value (also the zero value of a slot of a freshly
    allocated backing array);
  \<^item> \<open>Ptr p\<close> is a handler of a comparable dynamic type, identified by \<open>p\<close>: a pointer
    to the handler object at address \<open>p\<close>, such as the \<^verbatim>\<open>*HandlerFunc\<close> that
    \<^verbatim>\<open>SubscribeFunc\<close> allocates;
  \<^item> \<open>FuncVal f\<close> is a \<^verbatim>\<open>HandlerFunc\<close> stored in the interface by value.
    \<^verbatim>\<open>HandlerFunc\<close> is a function type with a value receiver for \<^verbatim>\<open>On\<close>, so it
    implements \<^verbatim>\<open>Handler\<close> itself, and a function type is not comparable: \<^verbatim>\<open>==\<close> on
    two interface values that both hold a \<^verbatim>\<open>HandlerFunc\<close> is a run-time panic.
\<close>

datatype handler = HNil | Ptr nat | FuncVal nat

text \<open>
  What stops a call without a result. The first two are Go run-time panics; the third
  stands for a handler that publishes reentrantly deeper than the bound given to
  \<open>Publish\<close> (in Go, unbounded recursion).
\<close>

datatype panic = UncomparablePanic | NilHandlerPanic | DepthExceeded

text \<open>The value of Go's \<^verbatim>\<open>error\<close> result; \<open>None\<close> is \<^verbatim>\<open>nil\<close>.\<close>

datatype go_error = GoError string

text \<open>
  A slice \<^verbatim>\<open>[]Handler\<close>: the address of its backing array and its length. Every slice
  the package builds starts at index 0 of its array, so the capacity is the length of
  the array. The nil slice (what \<^verbatim>\<open>b.topics[t]\<close> yields for an absent key) is \<open>None\<close>
  of \<open>slice option\<close>.
\<close>

datatype slice = Slice (sarr: nat) (slen: nat)

text \<open>
  \<^verbatim>\<open>UnsubscribeFunc\<close>: the closure \<^verbatim>\<open>func() bool { return b.Unsubscribe(t, h) }\<close>,
  with the \<open>t\<close> and \<open>h\<close> it captured.
\<close>

datatype 't unsubscribe_func = UnsubscribeFunc 't handler

text \<open>
  What a handler's \<^verbatim>\<open>On(b, t, v)\<close> does with the bus \<open>b\<close> it is given: a sequence of
  calls of \<^verbatim>\<open>b.Subscribe\<close>, \<^verbatim>\<open>b.Unsubscribe\<close> and \<^verbatim>\<open>b.Publish\<close>. Whatever else a
  handler does (to its own variables, to other buses, through \<^verbatim>\<open>SubscribeFunc\<close> or
  \<^verbatim>\<open>PublishAll\<close>) is outside the model.
\<close>

datatype ('t, 'v) cmd =
    CSubscribe 't handler
  | CUnsubscribe 't handler
  | CPublish 't 'v "int list"

text \<open>
  The state a method of a \<^verbatim>\<open>*Bus\<close> works on: the Go heap and the bus's \<^verbatim>\<open>topics\<close>
  field (the lock is left out: the model is sequential). A topic is a value of a type
  \<open>'t\<close> with equality, that is, an \<^verbatim>\<open>interface{}\<close> that Go can use as a map key; a
  topic of an uncomparable dynamic type, for which \<^verbatim>\<open>b.topics[t]\<close> panics, is outside
  the model.
  \<^item> \<open>arrays\<close>: the backing arrays of the slices, by address; \<open>nexta\<close> is the next free
    array address;
  \<^item> \<open>growslice\<close>: the capacity the run time picks when \<^verbatim>\<open>append\<close> must reallocate
    (old capacity, needed length); the language only promises it suffices;
  \<^item> \<open>nextp\<close>: the next free address of a handler object;
  \<^item> \<open>body\<close>: what each handler's \<^verbatim>\<open>On\<close> does, given the topic and the value;
  \<^item> \<open>calls\<close>: the invocations of \<^verbatim>\<open>h.On(b, t, v)\<close> made so far on the calling
    goroutine, in order; \<open>spawned\<close>: the invocations started with \<^verbatim>\<open>go\<close>.
\<close>

record ('t, 'v) world =
  arrays :: "nat \<Rightarrow> handler list"
  nexta :: nat
  growslice :: "nat \<Rightarrow> nat \<Rightarrow> nat"
  nextp :: nat
  body :: "handler \<Rightarrow> 't \<Rightarrow> 'v \<Rightarrow> ('t, 'v) cmd list"
  calls :: "(handler \<times> 't \<times> 'v) list"
  spawned :: "(handler \<times> 't \<times> 'v) list"
  topics :: "('t, slice) fmap"

section \<open>Slices and interface comparison\<close>

text \<open>The elements of a slice value, as \<^verbatim>\<open>range\<close> would read them now.\<close>

definition elems :: "('t, 'v, 'z) world_scheme \<Rightarrow> slice option \<Rightarrow> handler list" where
  "elems w so = (case so of None \<Rightarrow> [] | Some s \<Rightarrow> take (slen s) (arrays w (sarr s)))"

text \<open>The handler list of a topic: \<^verbatim>\<open>b.topics[t]\<close>.\<close>

definition handlers :: "('t, 'v, 'z) world_scheme \<Rightarrow> 't \<Rightarrow> handler list" where
  "handlers w t = elems w (fmlookup (topics w) t)"

text \<open>
  \<^verbatim>\<open>append(s, vs...)\<close>. With room in the backing array the values are written in place,
  after the first \<open>slen s\<close> elements, and the result shares the array; otherwise a new
  array is allocated, the elements copied and the rest zeroed.
\<close>

definition go_append ::
  "('t, 'v, 'z) world_scheme \<Rightarrow> slice \<Rightarrow> handler list \<Rightarrow> slice \<times> ('t, 'v, 'z) world_scheme" where
  "go_append w s vs =
     (let xs = arrays w (sarr s); n = slen s; need = n + length vs in
      if need \<le> length xs
      then (Slice (sarr s) need,
            w\<lparr>arrays := (arrays w)(sarr s := take n xs @ vs @ drop need xs)\<rparr>)
      else (let c = max need (growslice w (length xs) need) in
            (Slice (nexta w) need,
             w\<lparr>arrays := (arrays w)(nexta w := take n xs @ vs @ replicate (c - need) HNil),
               nexta := Suc (nexta w)\<rparr>)))"

text \<open>\<^verbatim>\<open>h2 == h\<close> on two interface values.\<close>

fun handler_eq :: "handler \<Rightarrow> handler \<Rightarrow> panic + bool" where
  "handler_eq (FuncVal f) (FuncVal g) = Inl UncomparablePanic"
| "handler_eq h2 h = Inr (h2 = h)"

section \<open>NewBus, Subscribe, Unsubscribe\<close>

text \<open>\<^verbatim>\<open>NewBus\<close>: a bus with an empty map, in the heap as it is.\<close>

definition NewBus :: "('t, 'v, 'z) world_scheme \<Rightarrow> ('t, 'v, 'z) world_scheme" where
  "NewBus w = w\<lparr>topics := fmempty\<rparr>"

definition Subscribe ::
  "'t \<Rightarrow> handler \<Rightarrow> ('t, 'v, 'z) world_scheme \<Rightarrow> 't unsubscribe_func \<times> ('t, 'v, 'z) world_scheme" where
  "Subscribe t h w =
     (UnsubscribeFunc t h,
      (case fmlookup (topics w) t of
         None \<Rightarrow>
           w\<lparr>arrays := (arrays w)(nexta w := [h]), nexta := Suc (nexta w),
             topics := fmupd t (Slice (nexta w) 1) (topics w)\<rparr>
       | Some hs \<Rightarrow>
           (case go_append w hs [h] of
              (s', w1) \<Rightarrow> w1\<lparr>topics := fmupd t s' (topics w1)\<rparr>)))"

text \<open>
  The loop of \<^verbatim>\<open>Unsubscribe\<close>: the index of the first element equal to \<open>h\<close>, a
  panic if a comparison on the way panics.
\<close>

fun scan :: "handler list \<Rightarrow> handler \<Rightarrow> nat \<Rightarrow> panic + nat option" where
  "scan [] h i = Inr None"
| "scan (h2 # xs) h i =
     (case handler_eq h2 h of
        Inl e \<Rightarrow> Inl e
      | Inr True \<Rightarrow> Inr (Some i)
      | Inr False \<Rightarrow> scan xs h (Suc i))"

definition Unsubscribe ::
  "'t \<Rightarrow> handler \<Rightarrow> ('t, 'v, 'z) world_scheme \<Rightarrow> panic + (bool \<times> ('t, 'v, 'z) world_scheme)" where
  "Unsubscribe t h w =
     (case fmlookup (topics w) t of
        None \<Rightarrow> Inr (False, w)
      | Some a \<Rightarrow>
          (case scan (elems w (Some a)) h 0 of
             Inl e \<Rightarrow> Inl e
           | Inr None \<Rightarrow> Inr (False, w)
           | Inr (Some i) \<Rightarrow>
               (case go_append w (Slice (sarr a) i) (drop (Suc i) (elems w (Some a))) of
                  (s', w1) \<Rightarrow>
                    (let w2 = w1\<lparr>topics := fmupd t s' (topics w1)\<rparr> in
                     Inr (True,
                          if slen s' = 0 then w2\<lparr>topics := fmdrop t (topics w2)\<rparr> else w2)))))"

text \<open>Calling the closure that \<^verbatim>\<open>Subscribe\<close> returned.\<close>

fun call_unsubscribe ::
  "'t unsubscribe_func \<Rightarrow> ('t, 'v, 'z) world_scheme \<Rightarrow> panic + (bool \<times> ('t, 'v, 'z) world_scheme)" where
  "call_unsubscribe (UnsubscribeFunc t h) w = Unsubscribe t h w"

text \<open>
  \<^verbatim>\<open>SubscribeFunc\<close>: \<^verbatim>\<open>hf := HandlerFunc(h)\<close> is a new variable, \<^verbatim>\<open>&hf\<close> its address; the
  handler subscribed is that pointer, and calling it runs \<open>fn\<close>.
\<close>

definition SubscribeFunc ::
  "'t \<Rightarrow> ('t \<Rightarrow> 'v \<Rightarrow> ('t, 'v) cmd list) \<Rightarrow> ('t, 'v, 'z) world_scheme \<Rightarrow>
   't unsubscribe_func \<times> ('t, 'v, 'z) world_scheme" where
  "SubscribeFunc t fn w =
     Subscribe t (Ptr (nextp w))
       (w\<lparr>nextp := Suc (nextp w), body := (body w)(Ptr (nextp w) := fn)\<rparr>)"

section \<open>Calling handlers\<close>

text \<open>
  \<^verbatim>\<open>for _, h := range hs { ... }\<close> over a slice value: the slice header (array and
  length) is fixed when the loop starts, and element \<open>i\<close> is read from the backing array
  when iteration \<open>i\<close> starts. \<open>k\<close> is the number of iterations left.
\<close>

fun range_slice ::
  "(handler \<Rightarrow> ('t, 'v, 'z) world_scheme \<Rightarrow> panic + ('t, 'v, 'z) world_scheme) \<Rightarrow>
   nat \<Rightarrow> nat \<Rightarrow> nat \<Rightarrow> ('t, 'v, 'z) world_scheme \<Rightarrow> panic + ('t, 'v, 'z) world_scheme" where
  "range_slice f a i 0 w = Inr w"
| "range_slice f a i (Suc k) w =
     (case f (arrays w a ! i) w of
        Inl e \<Rightarrow> Inl e
      | Inr w' \<Rightarrow> range_slice f a (Suc i) k w')"

definition range_over ::
  "(handler \<Rightarrow> ('t, 'v, 'z) world_scheme \<Rightarrow> panic + ('t, 'v, 'z) world_scheme) \<Rightarrow>
   slice option \<Rightarrow> ('t, 'v, 'z) world_scheme \<Rightarrow> panic + ('t, 'v, 'z) world_scheme" where
  "range_over f hs w =
     (case hs of None \<Rightarrow> Inr w | Some s \<Rightarrow> range_slice f (sarr s) 0 (slen s) w)"

text \<open>\<^verbatim>\<open>len(hs)\<close>.\<close>

definition len :: "slice option \<Rightarrow> int" where
  "len hs = (case hs of None \<Rightarrow> 0 | Some s \<Rightarrow> int (slen s))"

text \<open>
  One statement of a handler body. \<open>P\<close> is what a reentrant \<^verbatim>\<open>b.Publish\<close> does; the
  results of the calls are dropped.
\<close>

fun step ::
  "('t \<Rightarrow> 'v \<Rightarrow> int list \<Rightarrow> ('t, 'v, 'z) world_scheme \<Rightarrow> panic + ('t, 'v, 'z) world_scheme) \<Rightarrow>
   ('t, 'v) cmd \<Rightarrow> ('t, 'v, 'z) world_scheme \<Rightarrow> panic + ('t, 'v, 'z) world_scheme" where
  "step P (CSubscribe t h) w = Inr (snd (Subscribe t h w))"
| "step P (CUnsubscribe t h) w =
     (case Unsubscribe t h w of Inl e \<Rightarrow> Inl e | Inr (b, w') \<Rightarrow> Inr w')"
| "step P (CPublish t v fl) w = P t v fl w"

fun run ::
  "('t \<Rightarrow> 'v \<Rightarrow> int list \<Rightarrow> ('t, 'v, 'z) world_scheme \<Rightarrow> panic + ('t, 'v, 'z) world_scheme) \<Rightarrow>
   ('t, 'v) cmd list \<Rightarrow> ('t, 'v, 'z) world_scheme \<Rightarrow> panic + ('t, 'v, 'z) world_scheme" where
  "run P [] w = Inr w"
| "run P (c # cs) w =
     (case step P c w of Inl e \<Rightarrow> Inl e | Inr w' \<Rightarrow> run P cs w')"

text \<open>
  \<^verbatim>\<open>h.On(b, t, v)\<close> on the calling goroutine: a nil interface has no method to call;
  otherwise the call is recorded and the handler's body runs.
\<close>

definition On ::
  "('t \<Rightarrow> 'v \<Rightarrow> int list \<Rightarrow> ('t, 'v, 'z) world_scheme \<Rightarrow> panic + ('t, 'v, 'z) world_scheme) \<Rightarrow>
   't \<Rightarrow> 'v \<Rightarrow> handler \<Rightarrow> ('t, 'v, 'z) world_scheme \<Rightarrow> panic + ('t, 'v, 'z) world_scheme" where
  "On P t v h w =
     (if h = HNil then Inl NilHandlerPanic
      else run P (body w h t v) (w\<lparr>calls := calls w @ [(h, t, v)]\<rparr>))"

text \<open>
  \<^verbatim>\<open>go h.On(b, t, v)\<close>: the method value is evaluated on the calling goroutine (a panic
  for a nil interface), the call itself is only started.
\<close>

definition go_On ::
  "'t \<Rightarrow> 'v \<Rightarrow> handler \<Rightarrow> ('t, 'v, 'z) world_scheme \<Rightarrow> panic + ('t, 'v, 'z) world_scheme" where
  "go_On t v h w =
     (if h = HNil then Inl NilHandlerPanic
      else Inr (w\<lparr>spawned := spawned w @ [(h, t, v)]\<rparr>))"

section \<open>Publish and PublishAll\<close>

definition Async :: int where
  "Async = push_bit 0 1"

definition Publish_with ::
  "('t \<Rightarrow> 'v \<Rightarrow> int list \<Rightarrow> ('t, 'v, 'z) world_scheme \<Rightarrow> panic + ('t, 'v, 'z) world_scheme) \<Rightarrow>
   't \<Rightarrow> 'v \<Rightarrow> int list \<Rightarrow> ('t, 'v, 'z) world_scheme \<Rightarrow>
   panic + ((int \<times> go_error option) \<times> ('t, 'v, 'z) world_scheme)" where
  "Publish_with P t v flags w =
     (let f = foldl (OR) 0 flags;
          hs = fmlookup (topics w) t
      in if f AND Async \<noteq> 0
         then (case range_over (go_On t v) hs w of
                 Inl e \<Rightarrow> Inl e
               | Inr w' \<Rightarrow> Inr ((len hs, None), w'))
         else (case range_over (On P t v) hs w of
                 Inl e \<Rightarrow> Inl e
               | Inr w' \<Rightarrow> Inr ((len hs, None), w')))"

text \<open>
  A \<^verbatim>\<open>Publish\<close> called from a handler body, at most \<open>d\<close> calls deep.
\<close>

primrec nested ::
  "nat \<Rightarrow> 't \<Rightarrow> 'v \<Rightarrow> int list \<Rightarrow> ('t, 'v, 'z) world_scheme \<Rightarrow> panic + ('t, 'v, 'z) world_scheme" where
  "nested 0 = (\<lambda>t v fl w. Inl DepthExceeded)"
| "nested (Suc d) =
     (\<lambda>t v fl w. case Publish_with (nested d) t v fl w of
                    Inl e \<Rightarrow> Inl e
                  | Inr (r, w') \<Rightarrow> Inr w')"

text \<open>
  \<^verbatim>\<open>b.Publish(t, v, flags...)\<close>, with handlers that publish reentrantly at most \<open>d\<close>
  calls deep.
\<close>

definition Publish ::
  "nat \<Rightarrow> 't \<Rightarrow> 'v \<Rightarrow> int list \<Rightarrow> ('t, 'v, 'z) world_scheme \<Rightarrow>
   panic + ((int \<times> go_error option) \<times> ('t, 'v, 'z) world_scheme)" where
  "Publish d t v flags w = Publish_with (nested d) t v flags w"

text \<open>
  The loop of \<^verbatim>\<open>PublishAll\<close>. Go enumerates a map in an order of its choosing: \<open>ks\<close>
  is that order, the keys of \<^verbatim>\<open>b.topics\<close> once each.
\<close>

fun publish_all_loop ::
  "'t list \<Rightarrow> 'v \<Rightarrow> int \<Rightarrow> ('t, 'v, 'z) world_scheme \<Rightarrow> panic + (int \<times> ('t, 'v, 'z) world_scheme)" where
  "publish_all_loop [] v c w = Inr (c, w)"
| "publish_all_loop (t # ts) v c w =
     (let hs = fmlookup (topics w) t
      in case range_over (go_On t v) hs w of
           Inl e \<Rightarrow> Inl e
         | Inr w' \<Rightarrow> publish_all_loop ts v (c + len hs) w')"

definition PublishAll ::
  "'t list \<Rightarrow> 'v \<Rightarrow> ('t, 'v, 'z) world_scheme \<Rightarrow>
   panic + ((int \<times> go_error option) \<times> ('t, 'v, 'z) world_scheme)" where
  "PublishAll ks v w =
     (case publish_all_loop ks v 0 w of
        Inl e \<Rightarrow> Inl e
      | Inr (c, w') \<Rightarrow> Inr ((c, None), w'))"

section \<open>The default bus\<close>

text \<open>
  The package-level state: the heap and the bus behind \<^verbatim>\<open>defaultBus\<close>, and whether
  \<^verbatim>\<open>once\<close> has run. Before it has, \<^verbatim>\<open>defaultBus\<close> is nil and the \<open>topics\<close> field of the
  record stands for nothing.
\<close>

record ('t, 'v) process = "('t, 'v) world" +
  once_done :: bool

definition getDefaultBus :: "('t, 'v, 'z) process_scheme \<Rightarrow> ('t, 'v, 'z) process_scheme" where
  "getDefaultBus p = (if once_done p then p else (NewBus p)\<lparr>once_done := True\<rparr>)"

text \<open>
  The package-level functions. \<^verbatim>\<open>Unsubscribe\<close> is declared without a result: the
  boolean of the method is dropped.
\<close>

definition Subscribe_default ::
  "'t \<Rightarrow> handler \<Rightarrow> ('t, 'v, 'z) process_scheme \<Rightarrow>
   't unsubscribe_func \<times> ('t, 'v, 'z) process_scheme" where
  "Subscribe_default t h p = Subscribe t h (getDefaultBus p)"

definition SubscribeFunc_default ::
  "'t \<Rightarrow> ('t \<Rightarrow> 'v \<Rightarrow> ('t, 'v) cmd list) \<Rightarrow> ('t, 'v, 'z) process_scheme \<Rightarrow>
   't unsubscribe_func \<times> ('t, 'v, 'z) process_scheme" where
  "SubscribeFunc_default t fn p = SubscribeFunc t fn (getDefaultBus p)"

definition Publish_default ::
  "nat \<Rightarrow> 't \<Rightarrow> 'v \<Rightarrow> int list \<Rightarrow> ('t, 'v, 'z) process_scheme \<Rightarrow>
   panic + ((int \<times> go_error option) \<times> ('t, 'v, 'z) process_scheme)" where
  "Publish_default d t v flags p = Publish d t v flags (getDefaultBus p)"

definition Unsubscribe_default ::
  "'t \<Rightarrow> handler \<Rightarrow> ('t, 'v, 'z) process_scheme \<Rightarrow>
   panic + (unit \<times> ('t, 'v, 'z) process_scheme)" where
  "Unsubscribe_default t h p =
     (case Unsubscribe t h (getDefaultBus p) of
        Inl e \<Rightarrow> Inl e
      | Inr (b, p') \<Rightarrow> Inr ((), p'))"

text \<open>
  Modelled from the spec: \<^verbatim>\<open>OnceFunc\<close> is called by the tests and defined in no source
  file at hand. The spec has it "a wrapper that captures its own unsubscribe capability
  and calls it after delegating to the wrapped function", registered like
  \<^verbatim>\<open>SubscribeFunc\<close> does on the default bus. The capability is
  \<^verbatim>\<open>Unsubscribe(t, &hf)\<close> for the pointer that this registration allocates.
\<close>

definition OnceFunc ::
  "'t \<Rightarrow> ('t \<Rightarrow> 'v \<Rightarrow> ('t, 'v) cmd list) \<Rightarrow> ('t, 'v, 'z) process_scheme \<Rightarrow>
   't unsubscribe_func \<times> ('t, 'v, 'z) process_scheme" where
  "OnceFunc t fn p =
     (let q = getDefaultBus p
      in SubscribeFunc t (\<lambda>t' v'. fn t' v' @ [CUnsubscribe t (Ptr (nextp q))]) q)"

section \<open>Well-formed states\<close>

text \<open>
  A handler whose dynamic type Go can compare: everything but a \<^verbatim>\<open>HandlerFunc\<close> held
  by value.
\<close>

definition comparable :: "handler \<Rightarrow> bool" where
  "comparable h = (case h of FuncVal f \<Rightarrow> False | _ \<Rightarrow> True)"

text \<open>
  What Go guarantees of the slices in \<^verbatim>\<open>b.topics\<close>, and what the package keeps: every
  slice in the map points to an allocated array, is not empty and is no longer than its
  array, and two topics never share a backing array. Every state of a bus that the
  package can reach is well formed (\<open>reachable_wf\<close> below); the theorems about single
  calls are stated for the well-formed states.
\<close>

definition well_formed :: "('t, 'v, 'z) world_scheme \<Rightarrow> bool" where
  "well_formed w \<longleftrightarrow>
     (\<forall>t s. fmlookup (topics w) t = Some s \<longrightarrow>
        sarr s < nexta w \<and> 0 < slen s \<and> slen s \<le> length (arrays w (sarr s))) \<and>
     (\<forall>t t' s s'. fmlookup (topics w) t = Some s \<longrightarrow> fmlookup (topics w) t' = Some s' \<longrightarrow>
        sarr s = sarr s' \<longrightarrow> t = t')"

text \<open>
  An empty heap to run examples in: no array allocated, capacities doubled on growth,
  handler objects \<open>Ptr 0\<close> to \<open>Ptr 9\<close> allocated, with \<open>b\<close> as their bodies. \<open>idle\<close> is
  the body of handlers that leave the bus alone.
\<close>

definition heap0 ::
  "(handler \<Rightarrow> string \<Rightarrow> string \<Rightarrow> (string, string) cmd list) \<Rightarrow> (string, string) world" where
  "heap0 b = \<lparr>arrays = (\<lambda>a. []), nexta = 0, growslice = (\<lambda>c n. 2 * c), nextp = 10, body = b,
     calls = [], spawned = [], topics = fmempty\<rparr>"

definition idle :: "handler \<Rightarrow> string \<Rightarrow> string \<Rightarrow> (string, string) cmd list" where
  "idle h t v = []"

text \<open>
  The states of a bus that \<^verbatim>\<open>NewBus\<close> made, in any heap, after any sequence of calls
  of its methods that returned.
\<close>

inductive reachable :: "('t, 'v, 'z) world_scheme \<Rightarrow> bool" where
  new: "reachable (NewBus w)"
| subscribe: "reachable w \<Longrightarrow> reachable (snd (Subscribe t h w))"
| subscribe_func: "reachable w \<Longrightarrow> reachable (snd (SubscribeFunc t fn w))"
| unsubscribe: "reachable w \<Longrightarrow> Unsubscribe t h w = Inr (b, w') \<Longrightarrow> reachable w'"
| publish: "reachable w \<Longrightarrow> Publish d t v fl w = Inr (r, w') \<Longrightarrow> reachable w'"
| publish_all: "reachable w \<Longrightarrow> PublishAll ks v w = Inr (r, w') \<Longrightarrow> reachable w'"

text \<open>
  A property \<open>I\<close> of states that the calls a handler body may make keep, for the
  statements that satisfy \<open>ok\<close>, with every handler body made of such statements.
\<close>

definition kept ::
  "(('t, 'v, 'z) world_scheme \<Rightarrow> bool) \<Rightarrow> (('t, 'v) cmd \<Rightarrow> bool) \<Rightarrow> bool" where
  "kept I ok \<longleftrightarrow>
     (\<forall>t h w. I w \<longrightarrow> ok (CSubscribe t h) \<longrightarrow> I (snd (Subscribe t h w))) \<and>
     (\<forall>t h w b w'. I w \<longrightarrow> ok (CUnsubscribe t h) \<longrightarrow> Unsubscribe t h w = Inr (b, w') \<longrightarrow> I w') \<and>
     (\<forall>w x. I w \<longrightarrow> I (w\<lparr>calls := x\<rparr>)) \<and>
     (\<forall>w x. I w \<longrightarrow> I (w\<lparr>spawned := x\<rparr>)) \<and>
     (\<forall>w h t v c. I w \<longrightarrow> c \<in> set (body w h t v) \<longrightarrow> ok c)"

text \<open>
  The body of the example for reentrant removal: the handler \<open>Ptr 1\<close> unsubscribes
  itself from the topic it is called for, the others leave the bus alone.
\<close>

definition leaves :: "handler \<Rightarrow> string \<Rightarrow> string \<Rightarrow> (string, string) cmd list" where
  "leaves h t v = (if h = Ptr 1 then [CUnsubscribe t (Ptr 1)] else [])"

text \<open>
  Three handlers subscribed to one topic of a new bus, the first of which unsubscribes
  itself when called.
\<close>

definition three_handlers :: "(string, string) world" where
  "three_handlers =
     snd (Subscribe ''t'' (Ptr 3) (snd (Subscribe ''t'' (Ptr 2)
       (snd (Subscribe ''t'' (Ptr 1) (NewBus (heap0 leaves)))))))"

text \<open>A process that has not used the default bus yet.\<close>

definition process0 :: "(string, string) process" where
  "process0 = \<lparr>arrays = (\<lambda>a. []), nexta = 0, growslice = (\<lambda>c n. 2 * c), nextp = 10,
     body = idle, calls = [], spawned = [], topics = fmempty, once_done = False\<rparr>"

text \<open>
  Every pointer in a handler list is the address of an object that exists: it is below
  the next free address.
\<close>

definition allocated :: "('t, 'v, 'z) world_scheme \<Rightarrow> bool" where
  "allocated w \<longleftrightarrow> (\<forall>t p. Ptr p \<in> set (handlers w t) \<longrightarrow> p < nextp w)"

text \<open>
  Three functions registered with \<^verbatim>\<open>OnceFunc\<close> on one topic of the default bus; none
  of them calls the bus.
\<close>

definition three_once :: "(string, string) process" where
  "three_once =
     snd (OnceFunc ''t'' (\<lambda>t v. []) (snd (OnceFunc ''t'' (\<lambda>t v. [])
       (snd (OnceFunc ''t'' (\<lambda>t v. []) process0)))))"

section \<open>Scanning a handler list\<close>

lemma handler_eq_comparable: "comparable h \<Longrightarrow> handler_eq h2 h = Inr (h2 = h)"
  by (cases h; cases h2) (simp_all add: comparable_def)

lemma handler_eq_Inr: "handler_eq h2 h = Inr b \<Longrightarrow> b = (h2 = h)"
  by (cases h; cases h2) simp_all

lemma scan_Some: "scan xs h i = Inr (Some j) \<Longrightarrow>
   i \<le> j \<and> j - i < length xs \<and> xs ! (j - i) = h \<and> h \<notin> set (take (j - i) xs)"
proof (induction xs arbitrary: i)
  case Nil
  then show ?case by simp
next
  case (Cons h2 xs)
  show ?case
  proof (cases "handler_eq h2 h")
    case (Inl e)
    with Cons.prems show ?thesis by simp
  next
    case (Inr b)
    then have b: "b = (h2 = h)" by (rule handler_eq_Inr)
    show ?thesis
    proof (cases b)
      case True
      with Inr Cons.prems b show ?thesis by simp
    next
      case False
      with Inr Cons.prems have "scan xs h (Suc i) = Inr (Some j)" by simp
      from Cons.IH[OF this] have ih: "Suc i \<le> j" "j - Suc i < length xs" "xs ! (j - Suc i) = h"
        "h \<notin> set (take (j - Suc i) xs)" by auto
      have e: "j - i = Suc (j - Suc i)" using ih(1) by simp
      show ?thesis using ih False b by (simp add: e)
    qed
  qed
qed

lemma scan_None: "scan xs h i = Inr None \<Longrightarrow> h \<notin> set xs"
proof (induction xs arbitrary: i)
  case Nil
  then show ?case by simp
next
  case (Cons h2 xs)
  then show ?case
    by (cases "handler_eq h2 h") (auto dest: handler_eq_Inr split: bool.splits)
qed

lemma scan_comparable:
  "comparable h \<Longrightarrow> scan xs h i =
     Inr (if h \<in> set xs then Some (i + length (takeWhile (\<lambda>x. x \<noteq> h) xs)) else None)"
  by (induction xs arbitrary: i) (auto simp: handler_eq_comparable)

lemma scan_FuncVal:
  "scan xs (FuncVal f) i =
     (if \<exists>g. FuncVal g \<in> set xs then Inl UncomparablePanic else Inr None)"
proof (induction xs arbitrary: i)
  case Nil
  then show ?case by simp
next
  case (Cons h2 xs)
  then show ?case by (cases h2) auto
qed

lemma remove1_first:
  "i < length xs \<Longrightarrow> xs ! i = h \<Longrightarrow> h \<notin> set (take i xs) \<Longrightarrow>
   remove1 h xs = take i xs @ drop (Suc i) xs"
proof (induction xs arbitrary: i)
  case Nil
  then show ?case by simp
next
  case (Cons x xs)
  then show ?case by (cases i) auto
qed


lemma handlers_Some: "fmlookup (topics w) t = Some s \<Longrightarrow> handlers w t = take (slen s) (arrays w (sarr s))"
  by (simp add: handlers_def elems_def)

lemma handlers_None: "fmlookup (topics w) t = None \<Longrightarrow> handlers w t = []"
  by (simp add: handlers_def elems_def)

lemma wfD:
  assumes "well_formed w" "fmlookup (topics w) t = Some s"
  shows "sarr s < nexta w" "0 < slen s" "slen s \<le> length (arrays w (sarr s))"
  using assms unfolding well_formed_def by blast+

lemma wf_disjoint:
  "well_formed w \<Longrightarrow> fmlookup (topics w) t = Some s \<Longrightarrow> fmlookup (topics w) t' = Some s' \<Longrightarrow>
   t \<noteq> t' \<Longrightarrow> sarr s \<noteq> sarr s'"
  unfolding well_formed_def by blast

lemma Subscribe_new:
  "fmlookup (topics w) t = None \<Longrightarrow>
   snd (Subscribe t h w) =
     w\<lparr>arrays := (arrays w)(nexta w := [h]), nexta := Suc (nexta w),
       topics := fmupd t (Slice (nexta w) 1) (topics w)\<rparr>"
  by (simp add: Subscribe_def)

lemma Subscribe_room:
  "fmlookup (topics w) t = Some s \<Longrightarrow> slen s < length (arrays w (sarr s)) \<Longrightarrow>
   snd (Subscribe t h w) =
     w\<lparr>arrays := (arrays w)(sarr s :=
          take (slen s) (arrays w (sarr s)) @ [h] @ drop (Suc (slen s)) (arrays w (sarr s))),
       topics := fmupd t (Slice (sarr s) (Suc (slen s))) (topics w)\<rparr>"
  by (simp add: Subscribe_def go_append_def Let_def)

lemma Subscribe_grow:
  "fmlookup (topics w) t = Some s \<Longrightarrow> \<not> slen s < length (arrays w (sarr s)) \<Longrightarrow>
   snd (Subscribe t h w) =
     w\<lparr>arrays := (arrays w)(nexta w :=
          take (slen s) (arrays w (sarr s)) @ [h] @
          replicate (max (Suc (slen s)) (growslice w (length (arrays w (sarr s))) (Suc (slen s))) - Suc (slen s)) HNil),
       nexta := Suc (nexta w),
       topics := fmupd t (Slice (nexta w) (Suc (slen s))) (topics w)\<rparr>"
  by (simp add: Subscribe_def go_append_def Let_def not_less Suc_le_eq)

lemma Subscribe_cases:
  obtains (new) "fmlookup (topics w) t = None"
  | (room) s where "fmlookup (topics w) t = Some s" "slen s < length (arrays w (sarr s))"
  | (grow) s where "fmlookup (topics w) t = Some s" "\<not> slen s < length (arrays w (sarr s))"
  by (cases "fmlookup (topics w) t") auto

lemma Subscribe_handlers_same:
  assumes "well_formed w"
  shows "handlers (snd (Subscribe t h w)) t = handlers w t @ [h]"
proof (cases rule: Subscribe_cases[of w t])
  case new
  then show ?thesis by (simp add: Subscribe_new handlers_def elems_def)
next
  case (room s)
  then show ?thesis
    by (simp add: Subscribe_room handlers_def elems_def)
next
  case (grow s)
  with wfD(3)[OF assms grow(1)] show ?thesis
    by (simp add: Subscribe_grow handlers_def elems_def)
qed

lemma Subscribe_handlers_other:
  assumes "well_formed w" "t' \<noteq> t"
  shows "handlers (snd (Subscribe t h w)) t' = handlers w t'"
proof (cases "fmlookup (topics w) t'")
  case None
  then show ?thesis using assms(2)
    by (cases rule: Subscribe_cases[of w t])
       (simp_all add: Subscribe_new Subscribe_room Subscribe_grow handlers_def elems_def)
next
  case (Some s')
  have lt: "sarr s' < nexta w" by (rule wfD(1)[OF assms(1) Some])
  show ?thesis
  proof (cases rule: Subscribe_cases[of w t])
    case new
    then show ?thesis using Some lt assms(2)
      by (simp add: Subscribe_new handlers_def elems_def)
  next
    case (room s)
    have "sarr s \<noteq> sarr s'" using wf_disjoint[OF assms(1) room(1) Some] assms(2) by blast
    then show ?thesis using Some room assms(2)
      by (simp add: Subscribe_room handlers_def elems_def)
  next
    case (grow s)
    then show ?thesis using Some lt assms(2)
      by (simp add: Subscribe_grow handlers_def elems_def)
  qed
qed

lemma wfI:
  assumes "\<And>t s. fmlookup (topics w) t = Some s \<Longrightarrow>
             sarr s < nexta w \<and> 0 < slen s \<and> slen s \<le> length (arrays w (sarr s))"
    and "\<And>t t' s s'. fmlookup (topics w) t = Some s \<Longrightarrow> fmlookup (topics w) t' = Some s' \<Longrightarrow>
             sarr s = sarr s' \<Longrightarrow> t = t'"
  shows "well_formed w"
  using assms unfolding well_formed_def by blast

lemma wf_new_array:
  assumes "well_formed w" "0 < n" "n \<le> length xs"
  shows "well_formed (w\<lparr>arrays := (arrays w)(nexta w := xs), nexta := Suc (nexta w),
               topics := fmupd t (Slice (nexta w) n) (topics w)\<rparr>)" (is "well_formed ?w'")
proof (rule wfI)
  fix t' s'
  assume l: "fmlookup (topics ?w') t' = Some s'"
  show "sarr s' < nexta ?w' \<and> 0 < slen s' \<and> slen s' \<le> length (arrays ?w' (sarr s'))"
  proof (cases "t' = t")
    case True
    with l assms(2,3) show ?thesis by auto
  next
    case False
    with l have "fmlookup (topics w) t' = Some s'" by simp
    from wfD[OF assms(1) this] show ?thesis by simp
  qed
next
  fix t1 t2 s1 s2
  assume l1: "fmlookup (topics ?w') t1 = Some s1"
    and l2: "fmlookup (topics ?w') t2 = Some s2"
    and e: "sarr s1 = sarr s2"
  have old: "\<And>t' s'. t' \<noteq> t \<Longrightarrow> fmlookup (topics w) t' = Some s' \<Longrightarrow> sarr s' \<noteq> nexta w"
    using wfD(1)[OF assms(1)] by fastforce
  show "t1 = t2"
  proof (cases "t1 = t"; cases "t2 = t")
    assume "t1 \<noteq> t" "t2 \<noteq> t"
    with l1 l2 e wf_disjoint[OF assms(1), of t1 s1 t2 s2] show ?thesis by auto
  qed (use l1 l2 e old in \<open>fastforce split: if_splits\<close>)+
qed

lemma wf_same_array:
  assumes "well_formed w" "fmlookup (topics w) t = Some s" "0 < n" "n \<le> length xs"
  shows "well_formed (w\<lparr>arrays := (arrays w)(sarr s := xs),
               topics := fmupd t (Slice (sarr s) n) (topics w)\<rparr>)" (is "well_formed ?w'")
proof (rule wfI)
  fix t' s'
  assume l: "fmlookup (topics ?w') t' = Some s'"
  show "sarr s' < nexta ?w' \<and> 0 < slen s' \<and> slen s' \<le> length (arrays ?w' (sarr s'))"
  proof (cases "t' = t")
    case True
    with l assms(3,4) wfD(1)[OF assms(1,2)] show ?thesis by auto
  next
    case False
    with l have l': "fmlookup (topics w) t' = Some s'" by simp
    have "sarr s' \<noteq> sarr s" using wf_disjoint[OF assms(1) l' assms(2) False] .
    with wfD[OF assms(1) l'] show ?thesis by simp
  qed
next
  fix t1 t2 s1 s2
  assume l1: "fmlookup (topics ?w') t1 = Some s1"
    and l2: "fmlookup (topics ?w') t2 = Some s2"
    and e: "sarr s1 = sarr s2"
  have old: "\<And>t' s'. t' \<noteq> t \<Longrightarrow> fmlookup (topics w) t' = Some s' \<Longrightarrow> sarr s' \<noteq> sarr s"
    using wf_disjoint[OF assms(1) _ assms(2)] by blast
  show "t1 = t2"
  proof (cases "t1 = t"; cases "t2 = t")
    assume "t1 \<noteq> t" "t2 \<noteq> t"
    with l1 l2 e wf_disjoint[OF assms(1), of t1 s1 t2 s2] show ?thesis by auto
  qed (use l1 l2 e old in \<open>fastforce split: if_splits\<close>)+
qed

lemma wf_drop_topic:
  assumes "well_formed w" "fmlookup (topics w) t = Some s"
  shows "well_formed (w\<lparr>arrays := (arrays w)(sarr s := xs), topics := fmdrop t (topics w)\<rparr>)"
    (is "well_formed ?w'")
proof (rule wfI)
  fix t' s'
  assume l: "fmlookup (topics ?w') t' = Some s'"
  then have ne: "t' \<noteq> t" and l': "fmlookup (topics w) t' = Some s'"
    by (auto split: if_splits)
  have "sarr s' \<noteq> sarr s" using wf_disjoint[OF assms(1) l' assms(2) ne] .
  with wfD[OF assms(1) l']
  show "sarr s' < nexta ?w' \<and> 0 < slen s' \<and> slen s' \<le> length (arrays ?w' (sarr s'))"
    by simp
next
  fix t1 t2 s1 s2
  assume l1: "fmlookup (topics ?w') t1 = Some s1"
    and l2: "fmlookup (topics ?w') t2 = Some s2"
    and e: "sarr s1 = sarr s2"
  from l1 l2 have "fmlookup (topics w) t1 = Some s1" "fmlookup (topics w) t2 = Some s2"
    by (auto split: if_splits)
  with e wf_disjoint[OF assms(1), of t1 s1 t2 s2] show "t1 = t2" by auto
qed

lemma Subscribe_wf:
  assumes "well_formed w"
  shows "well_formed (snd (Subscribe t h w))"
proof (cases rule: Subscribe_cases[of w t])
  case new
  show ?thesis unfolding Subscribe_new[OF new]
    by (rule wf_new_array[OF assms]) simp_all
next
  case (room s)
  show ?thesis unfolding Subscribe_room[OF room]
    by (rule wf_same_array[OF assms room(1)]) (use room(2) wfD[OF assms room(1)] in simp_all)
next
  case (grow s)
  show ?thesis unfolding Subscribe_grow[OF grow]
    by (rule wf_new_array[OF assms]) (use wfD[OF assms grow(1)] in simp_all)
qed


lemma Unsubscribe_absent:
  "fmlookup (topics w) t = None \<Longrightarrow> Unsubscribe t h w = Inr (False, w)"
  by (simp add: Unsubscribe_def)

lemma Unsubscribe_miss:
  "fmlookup (topics w) t = Some a \<Longrightarrow> scan (elems w (Some a)) h 0 = Inr None \<Longrightarrow>
   Unsubscribe t h w = Inr (False, w)"
  by (simp add: Unsubscribe_def)

lemma Unsubscribe_panic:
  "fmlookup (topics w) t = Some a \<Longrightarrow> scan (elems w (Some a)) h 0 = Inl e \<Longrightarrow>
   Unsubscribe t h w = Inl e"
  by (simp add: Unsubscribe_def)

lemma Unsubscribe_found:
  assumes "well_formed w" "fmlookup (topics w) t = Some a"
    and "scan (elems w (Some a)) h 0 = Inr (Some i)"
  shows "Unsubscribe t h w =
     Inr (True,
          w\<lparr>arrays := (arrays w)(sarr a :=
               take i (arrays w (sarr a)) @ drop (Suc i) (take (slen a) (arrays w (sarr a))) @
               drop (slen a - 1) (arrays w (sarr a))),
            topics := (if slen a = 1 then fmdrop t (topics w)
                       else fmupd t (Slice (sarr a) (slen a - 1)) (topics w))\<rparr>)"
proof -
  have n: "slen a \<le> length (arrays w (sarr a))" by (rule wfD(3)[OF assms(1,2)])
  have "length (elems w (Some a)) = slen a" using n by (simp add: elems_def)
  with scan_Some[OF assms(3)] have i: "i < slen a" by simp
  have need: "i + (slen a - Suc i) = slen a - Suc 0" using i by simp
  have room: "slen a - Suc 0 \<le> length (arrays w (sarr a))" using n by simp
  have ga: "go_append w (Slice (sarr a) i) (drop (Suc i) (elems w (Some a))) =
      (Slice (sarr a) (slen a - 1),
       w\<lparr>arrays := (arrays w)(sarr a :=
               take i (arrays w (sarr a)) @ drop (Suc i) (take (slen a) (arrays w (sarr a))) @
               drop (slen a - 1) (arrays w (sarr a)))\<rparr>)"
    using n i room by (simp add: go_append_def elems_def Let_def need min_def)
  show ?thesis
    using assms(2,3) i by (auto simp: Unsubscribe_def ga Let_def fmdrop_fmupd_same)
qed

lemma Unsubscribe_cases:
  assumes "well_formed w"
  obtains (absent) "fmlookup (topics w) t = None" "Unsubscribe t h w = Inr (False, w)"
  | (miss) a where "fmlookup (topics w) t = Some a" "h \<notin> set (handlers w t)"
      "Unsubscribe t h w = Inr (False, w)"
  | (panic) a e where "fmlookup (topics w) t = Some a" "Unsubscribe t h w = Inl e"
      "\<not> comparable h"
  | (found) a i where "fmlookup (topics w) t = Some a" "i < slen a"
      "handlers w t ! i = h" "h \<notin> set (take i (handlers w t))"
      "Unsubscribe t h w =
         Inr (True,
          w\<lparr>arrays := (arrays w)(sarr a :=
               take i (arrays w (sarr a)) @ drop (Suc i) (take (slen a) (arrays w (sarr a))) @
               drop (slen a - 1) (arrays w (sarr a))),
            topics := (if slen a = 1 then fmdrop t (topics w)
                       else fmupd t (Slice (sarr a) (slen a - 1)) (topics w))\<rparr>)"
proof (cases "fmlookup (topics w) t")
  case None
  show ?thesis by (rule absent[OF None Unsubscribe_absent[OF None]])
next
  case (Some a)
  have hs: "handlers w t = elems w (Some a)" using Some by (simp add: handlers_def)
  have n: "slen a \<le> length (arrays w (sarr a))" by (rule wfD(3)[OF assms Some])
  show ?thesis
  proof (cases "scan (elems w (Some a)) h 0")
    case (Inl e)
    have "\<not> comparable h" using Inl scan_comparable[of h "elems w (Some a)" 0] by auto
    then show ?thesis using panic Some Unsubscribe_panic[OF Some Inl] by blast
  next
    case (Inr r)
    show ?thesis
    proof (cases r)
      case None
      with Inr have sc: "scan (elems w (Some a)) h 0 = Inr None" by simp
      show ?thesis using miss[OF Some _ Unsubscribe_miss[OF Some sc]] scan_None[OF sc] hs by simp
    next
      case (Some i)
      with Inr have sc: "scan (elems w (Some a)) h 0 = Inr (Some i)" by simp
      from scan_Some[OF sc] have a1: "i < length (elems w (Some a))" "elems w (Some a) ! i = h"
        "h \<notin> set (take i (elems w (Some a)))" by simp_all
      have "length (elems w (Some a)) = slen a" using n by (simp add: elems_def)
      with a1 have "i < slen a" "handlers w t ! i = h"
        "h \<notin> set (take i (handlers w t))" unfolding hs by simp_all
      then show ?thesis using found[OF \<open>fmlookup (topics w) t = Some a\<close> _ _ _ Unsubscribe_found[OF assms \<open>fmlookup (topics w) t = Some a\<close> sc]]
        by blast
    qed
  qed
qed

lemma Unsubscribe_False:
  "Unsubscribe t h w = Inr (False, w') \<Longrightarrow> w' = w \<and> h \<notin> set (handlers w t)"
  by (auto simp: Unsubscribe_def handlers_def elems_def Let_def
      split: option.splits sum.splits prod.splits dest: scan_None)

lemma Unsubscribe_True:
  assumes "well_formed w" "Unsubscribe t h w = Inr (True, w')"
  shows "h \<in> set (handlers w t)" "handlers w' t = remove1 h (handlers w t)"
    "fmlookup (topics w') t = None \<longleftrightarrow> handlers w' t = []"
proof -
  from assms(1) have "h \<in> set (handlers w t) \<and> handlers w' t = remove1 h (handlers w t) \<and>
     (fmlookup (topics w') t = None \<longleftrightarrow> handlers w' t = [])"
  proof (cases rule: Unsubscribe_cases[of w t h])
    case (found a i)
    have n: "slen a \<le> length (arrays w (sarr a))" by (rule wfD(3)[OF assms(1) found(1)])
    have hs: "handlers w t = take (slen a) (arrays w (sarr a))"
      by (rule handlers_Some[OF found(1)])
    have len: "length (handlers w t) = slen a" using n by (simp add: hs)
    have r: "remove1 h (handlers w t) = take i (handlers w t) @ drop (Suc i) (handlers w t)"
      by (rule remove1_first) (use found len in simp_all)
    have w': "w' = w\<lparr>arrays := (arrays w)(sarr a :=
               take i (arrays w (sarr a)) @ drop (Suc i) (take (slen a) (arrays w (sarr a))) @
               drop (slen a - 1) (arrays w (sarr a))),
            topics := (if slen a = 1 then fmdrop t (topics w)
                       else fmupd t (Slice (sarr a) (slen a - 1)) (topics w))\<rparr>"
      using found(5) assms(2) by simp
    have mem: "h \<in> set (handlers w t)" using found(2,3) len by (metis nth_mem)
    have ti: "take i (handlers w t) = take i (arrays w (sarr a))"
      using found(2) by (simp add: hs min_def)
    have new: "handlers w' t = remove1 h (handlers w t)"
    proof (cases "slen a = 1")
      case True
      then have "i = 0" using found(2) by simp
      with True show ?thesis using r len by (simp add: w' handlers_def elems_def)
    next
      case False
      have "handlers w' t = take (slen a - 1) (take i (arrays w (sarr a)) @
          drop (Suc i) (take (slen a) (arrays w (sarr a))) @ drop (slen a - 1) (arrays w (sarr a)))"
        using False by (simp add: w' handlers_def elems_def)
      also have "\<dots> = take i (arrays w (sarr a)) @ drop (Suc i) (take (slen a) (arrays w (sarr a)))"
      proof -
        define A where "A = take i (arrays w (sarr a)) @ drop (Suc i) (take (slen a) (arrays w (sarr a)))"
        have l: "length A = slen a - 1" using found(2) n by (simp add: A_def min_def)
        have "take (length A) (A @ drop (slen a - 1) (arrays w (sarr a))) = A" by simp
        then show ?thesis unfolding l by (simp add: A_def)
      qed
      finally show ?thesis using r ti hs by simp
    qed
    have "fmlookup (topics w') t = None \<longleftrightarrow> slen a = 1" by (simp add: w')
    moreover have "handlers w' t = [] \<longleftrightarrow> slen a = 1"
      using new r len found(2) by (auto simp: )
    ultimately show ?thesis using mem new by simp
  qed (use assms(2) in auto)
  then show "h \<in> set (handlers w t)" "handlers w' t = remove1 h (handlers w t)"
    "fmlookup (topics w') t = None \<longleftrightarrow> handlers w' t = []" by blast+
qed


lemma Unsubscribe_handlers_other:
  assumes "well_formed w" "t' \<noteq> t" "Unsubscribe t h w = Inr (b, w')"
  shows "handlers w' t' = handlers w t'"
  using assms(1)
proof (cases rule: Unsubscribe_cases[of w t h])
  case (found a i)
  have w': "w' = w\<lparr>arrays := (arrays w)(sarr a :=
               take i (arrays w (sarr a)) @ drop (Suc i) (take (slen a) (arrays w (sarr a))) @
               drop (slen a - 1) (arrays w (sarr a))),
            topics := (if slen a = 1 then fmdrop t (topics w)
                       else fmupd t (Slice (sarr a) (slen a - 1)) (topics w))\<rparr>"
    using found(5) assms(3) by simp
  show ?thesis
  proof (cases "fmlookup (topics w) t'")
    case None
    then show ?thesis using assms(2) by (simp add: w' handlers_def elems_def)
  next
    case (Some s')
    have "sarr s' \<noteq> sarr a" using wf_disjoint[OF assms(1) Some found(1) assms(2)] .
    then show ?thesis using assms(2) Some by (simp add: w' handlers_def elems_def)
  qed
qed (use assms(3) in auto)

lemma Unsubscribe_wf:
  assumes "well_formed w" "Unsubscribe t h w = Inr (b, w')"
  shows "well_formed w'"
  using assms(1)
proof (cases rule: Unsubscribe_cases[of w t h])
  case (found a i)
  have n: "slen a \<le> length (arrays w (sarr a))" by (rule wfD(3)[OF assms(1) found(1)])
  have w': "w' = w\<lparr>arrays := (arrays w)(sarr a :=
               take i (arrays w (sarr a)) @ drop (Suc i) (take (slen a) (arrays w (sarr a))) @
               drop (slen a - 1) (arrays w (sarr a))),
            topics := (if slen a = 1 then fmdrop t (topics w)
                       else fmupd t (Slice (sarr a) (slen a - 1)) (topics w))\<rparr>"
    using found(5) assms(2) by simp
  show ?thesis
  proof (cases "slen a = 1")
    case True
    then show ?thesis unfolding w' using wf_drop_topic[OF assms(1) found(1)] by simp
  next
    case False
    have "well_formed (w\<lparr>arrays := (arrays w)(sarr a :=
               take i (arrays w (sarr a)) @ drop (Suc i) (take (slen a) (arrays w (sarr a))) @
               drop (slen a - 1) (arrays w (sarr a))),
            topics := fmupd t (Slice (sarr a) (slen a - 1)) (topics w)\<rparr>)"
      by (rule wf_same_array[OF assms(1) found(1)])
         (use False found(2) n in \<open>auto simp: min_def\<close>)
    then show ?thesis unfolding w' using False by simp
  qed
qed (use assms in auto)

lemma Unsubscribe_comparable:
  assumes "well_formed w" "comparable h"
  shows "\<exists>w'. Unsubscribe t h w = Inr (h \<in> set (handlers w t), w')"
  using assms(1)
proof (cases rule: Unsubscribe_cases[of w t h])
  case absent
  then show ?thesis by (simp add: handlers_None)
next
  case (miss a)
  then show ?thesis by simp
next
  case (panic a e)
  with assms(2) show ?thesis by simp
next
  case (found a i)
  have "length (handlers w t) = slen a"
    using wfD(3)[OF assms(1) found(1)] by (simp add: handlers_Some[OF found(1)])
  with found(2,3) have "h \<in> set (handlers w t)" by (metis nth_mem)
  with found(5) show ?thesis by simp
qed

lemma Unsubscribe_FuncVal:
  "Unsubscribe t (FuncVal f) w =
     (if \<exists>g. FuncVal g \<in> set (handlers w t) then Inl UncomparablePanic else Inr (False, w))"
  by (cases "fmlookup (topics w) t")
     (simp_all add: Unsubscribe_def handlers_def scan_FuncVal elems_def[of w None])

lemma Unsubscribe_fields:
  assumes "Unsubscribe t h w = Inr (b, w')"
  shows "nextp w' = nextp w" "body w' = body w" "calls w' = calls w" "spawned w' = spawned w"
    "growslice w' = growslice w" "nexta w \<le> nexta w'"
  using assms
  by (auto simp: Unsubscribe_def go_append_def Let_def
      split: option.splits sum.splits prod.splits if_splits)

lemma Subscribe_fields:
  "nextp (snd (Subscribe t h w)) = nextp w" "body (snd (Subscribe t h w)) = body w"
  "calls (snd (Subscribe t h w)) = calls w" "spawned (snd (Subscribe t h w)) = spawned w"
  "growslice (snd (Subscribe t h w)) = growslice w" "nexta w \<le> nexta (snd (Subscribe t h w))"
  by (auto simp: Subscribe_def go_append_def Let_def split: option.splits)


lemma wf_NewBus: "well_formed (NewBus w)"
  by (simp add: well_formed_def NewBus_def)

lemma handlers_NewBus: "handlers (NewBus w) t = []"
  by (simp add: handlers_def elems_def NewBus_def)

section \<open>Unsubscribe\<close>

text \<open>
  What \<^verbatim>\<open>Unsubscribe(t, h)\<close> does for a handler \<open>h\<close> of comparable dynamic type and any
  topic \<open>t\<close>: it returns, and returns whether \<open>h\<close> is in the handler list of \<open>t\<close>.
  When it is, the list afterwards is the old one with the first element equal to \<open>h\<close>
  removed and the others in their order, and the key \<open>t\<close> is in the map exactly when
  that list is not empty; when it is not (absent topic, other handler, already removed),
  the result is false and nothing has changed.
\<close>

lemma Unsubscribe_removes_first:
  assumes "well_formed w" "comparable h"
  shows "\<exists>w'. Unsubscribe t h w = Inr (h \<in> set (handlers w t), w') \<and>
           (if h \<in> set (handlers w t)
            then handlers w' t = remove1 h (handlers w t) \<and>
                 (fmlookup (topics w') t = None \<longleftrightarrow> handlers w' t = [])
            else w' = w)"
proof -
  from Unsubscribe_comparable[OF assms] obtain w'
    where u: "Unsubscribe t h w = Inr (h \<in> set (handlers w t), w')" by blast
  show ?thesis
  proof (cases "h \<in> set (handlers w t)")
    case True
    with u have "Unsubscribe t h w = Inr (True, w')" by simp
    from Unsubscribe_True(2,3)[OF assms(1) this] u True show ?thesis by auto
  next
    case False
    with u have "Unsubscribe t h w = Inr (False, w')" by simp
    from Unsubscribe_False[OF this] u False show ?thesis by auto
  qed
qed

lemma Unsubscribe_removes_first_example:
  "well_formed (snd (Subscribe ''t'' (Ptr 2) (snd (Subscribe ''t'' (Ptr 1) (NewBus (heap0 idle)))))) \<and>
   comparable (Ptr 1) \<and>
   (\<exists>w'. Unsubscribe ''t'' (Ptr 1)
            (snd (Subscribe ''t'' (Ptr 2) (snd (Subscribe ''t'' (Ptr 1) (NewBus (heap0 idle)))))) =
          Inr (True, w') \<and> handlers w' ''t'' = [Ptr 2] \<and> fmlookup (topics w') ''t'' \<noteq> None)"
proof -
  let ?w = "snd (Subscribe ''t'' (Ptr 2) (snd (Subscribe ''t'' (Ptr 1) (NewBus (heap0 idle)))))"
  have w: "well_formed ?w" by (intro Subscribe_wf wf_NewBus)
  have c: "comparable (Ptr 1)" by (simp add: comparable_def)
  have hs: "handlers ?w ''t'' = [Ptr 1, Ptr 2]"
    by (simp add: Subscribe_handlers_same wf_NewBus Subscribe_wf handlers_NewBus)
  from Unsubscribe_removes_first[OF w c, of "''t''"] hs w c show ?thesis
    by auto
qed

text \<open>
  Claim C2 does not hold of the code for a \<^verbatim>\<open>HandlerFunc\<close> passed by value, which the
  package declares so that a function can "act as a Handler itself". It can be
  subscribed, and then neither \<^verbatim>\<open>Unsubscribe\<close> with it nor the function that
  \<^verbatim>\<open>Subscribe\<close> returned "to unsubscribe the handler" finds and removes it or
  returns false: both panic at the comparison \<^verbatim>\<open>h2 == h\<close>. \<^verbatim>\<open>SubscribeFunc\<close>
  registers the pointer \<^verbatim>\<open>&hf\<close>, for which the same calls return true.
\<close>

theorem Unsubscribe_HandlerFunc_value_panics:
  "handlers (snd (Subscribe ''t'' (FuncVal 0) (NewBus (heap0 idle)))) ''t'' = [FuncVal 0] \<and>
   Unsubscribe ''t'' (FuncVal 0) (snd (Subscribe ''t'' (FuncVal 0) (NewBus (heap0 idle)))) =
     Inl UncomparablePanic \<and>
   call_unsubscribe (fst (Subscribe ''t'' (FuncVal 0) (NewBus (heap0 idle))))
     (snd (Subscribe ''t'' (FuncVal 0) (NewBus (heap0 idle)))) = Inl UncomparablePanic \<and>
   map_sum id fst
     (call_unsubscribe (fst (SubscribeFunc ''t'' (\<lambda>t v. []) (NewBus (heap0 idle))))
        (snd (SubscribeFunc ''t'' (\<lambda>t v. []) (NewBus (heap0 idle))))) = Inr True"
  by (simp add: Unsubscribe_def Subscribe_def SubscribeFunc_def NewBus_def heap0_def elems_def
      handlers_def go_append_def Let_def)

section \<open>Frame of Subscribe and Unsubscribe\<close>

text \<open>
  Claim C10. \<^verbatim>\<open>Subscribe(t, h)\<close> and \<^verbatim>\<open>Unsubscribe(t, h)\<close> leave the handler list of
  every topic other than \<open>t\<close> as it was, and an \<^verbatim>\<open>Unsubscribe\<close> that returns false
  leaves the whole state, the topic map included, as it was.
\<close>

theorem Subscribe_Unsubscribe_frame:
  assumes "well_formed w"
  shows "(\<forall>t'. t' \<noteq> t \<longrightarrow> handlers (snd (Subscribe t h w)) t' = handlers w t') \<and>
         (\<forall>b w' t'. Unsubscribe t h w = Inr (b, w') \<longrightarrow> t' \<noteq> t \<longrightarrow>
            handlers w' t' = handlers w t') \<and>
         (\<forall>w'. Unsubscribe t h w = Inr (False, w') \<longrightarrow> w' = w)"
proof (intro conjI allI impI)
  fix t' assume "t' \<noteq> t"
  then show "handlers (snd (Subscribe t h w)) t' = handlers w t'"
    by (rule Subscribe_handlers_other[OF assms])
next
  fix b w' t' assume u: "Unsubscribe t h w = Inr (b, w')" and ne: "t' \<noteq> t"
  show "handlers w' t' = handlers w t'"
    by (rule Unsubscribe_handlers_other[OF assms ne u])
next
  fix w' assume u: "Unsubscribe t h w = Inr (False, w')"
  show "w' = w" using Unsubscribe_False[OF u] by simp
qed

theorem Subscribe_Unsubscribe_frame_witness:
  "well_formed (snd (Subscribe ''b'' (Ptr 1) (NewBus (heap0 idle)))) \<and>
   handlers (snd (Subscribe ''a'' (Ptr 2) (snd (Subscribe ''b'' (Ptr 1) (NewBus (heap0 idle)))))) ''b''
     = [Ptr 1] \<and>
   Unsubscribe ''a'' (Ptr 1) (snd (Subscribe ''b'' (Ptr 1) (NewBus (heap0 idle)))) =
     Inr (False, snd (Subscribe ''b'' (Ptr 1) (NewBus (heap0 idle))))"
proof -
  let ?w = "snd (Subscribe ''b'' (Ptr 1) (NewBus (heap0 idle)))"
  have w: "well_formed ?w" by (intro Subscribe_wf wf_NewBus)
  have hs: "handlers ?w ''b'' = [Ptr 1]"
    by (simp add: Subscribe_handlers_same wf_NewBus handlers_NewBus)
  have u: "Unsubscribe ''a'' (Ptr 1) ?w = Inr (False, ?w)"
    by (rule Unsubscribe_absent) (simp add: Subscribe_def NewBus_def)
  from Subscribe_Unsubscribe_frame[OF w, of "''a''" "Ptr 2"] hs w u show ?thesis
    by auto
qed

section \<open>Properties kept by every call\<close>

lemma keptD:
  assumes "kept I ok"
  shows "\<And>t h w. I w \<Longrightarrow> ok (CSubscribe t h) \<Longrightarrow> I (snd (Subscribe t h w))"
    and "\<And>t h w b w'. I w \<Longrightarrow> ok (CUnsubscribe t h) \<Longrightarrow> Unsubscribe t h w = Inr (b, w') \<Longrightarrow> I w'"
    and "\<And>w x. I w \<Longrightarrow> I (w\<lparr>calls := x\<rparr>)"
    and "\<And>w x. I w \<Longrightarrow> I (w\<lparr>spawned := x\<rparr>)"
    and "\<And>w h t v c. I w \<Longrightarrow> c \<in> set (body w h t v) \<Longrightarrow> ok c"
  using assms unfolding kept_def by metis+

lemma step_kept:
  assumes k: "kept I ok"
    and P: "\<forall>t v fl w w'. I w \<longrightarrow> P t v fl w = Inr w' \<longrightarrow> I w'"
    and "I w" "ok c" "step P c w = Inr w'"
  shows "I w'"
proof (cases c)
  case (CSubscribe t h)
  with assms(3-5) keptD(1)[OF k] show ?thesis by auto
next
  case (CUnsubscribe t h)
  with assms(5) obtain b where "Unsubscribe t h w = Inr (b, w')"
    by (auto split: sum.splits)
  with keptD(2)[OF k assms(3)] assms(4) CUnsubscribe show ?thesis by simp
next
  case (CPublish t v fl)
  with assms(3,5) P show ?thesis by simp
qed

lemma run_kept:
  assumes k: "kept I ok"
    and P: "\<forall>t v fl w w'. I w \<longrightarrow> P t v fl w = Inr w' \<longrightarrow> I w'"
  shows "I w \<Longrightarrow> \<forall>c\<in>set cs. ok c \<Longrightarrow> run P cs w = Inr w' \<Longrightarrow> I w'"
proof (induction cs arbitrary: w)
  case Nil
  then show ?case by simp
next
  case (Cons c cs)
  from Cons.prems(3) obtain w1 where s: "step P c w = Inr w1" and r: "run P cs w1 = Inr w'"
    by (auto split: sum.splits)
  have "ok c" using Cons.prems(2) by simp
  from step_kept[OF k P Cons.prems(1) this s] have "I w1" .
  then show ?case using Cons.IH[OF _ _ r] Cons.prems(2) by simp
qed

lemma On_kept:
  assumes k: "kept I ok"
    and P: "\<forall>t v fl w w'. I w \<longrightarrow> P t v fl w = Inr w' \<longrightarrow> I w'"
    and "I w" "On P t v h w = Inr w'"
  shows "I w'"
proof -
  let ?w1 = "w\<lparr>calls := calls w @ [(h, t, v)]\<rparr>"
  from assms(4) have r: "run P (body w h t v) ?w1 = Inr w'"
    by (simp add: On_def split: if_splits)
  have i1: "I ?w1" by (rule keptD(3)[OF k assms(3)])
  have "\<forall>c\<in>set (body w h t v). ok c" using keptD(5)[OF k assms(3)] by blast
  from run_kept[OF k P i1 this r] show ?thesis .
qed

lemma go_On_kept:
  assumes k: "kept I ok" and "I w" "go_On t v h w = Inr w'"
  shows "I w'"
  using assms(3) keptD(4)[OF k assms(2)] by (auto simp: go_On_def split: if_splits)

lemma range_slice_kept:
  assumes f: "\<forall>h w w'. I w \<longrightarrow> f h w = Inr w' \<longrightarrow> I w'"
  shows "I w \<Longrightarrow> range_slice f a i n w = Inr w' \<Longrightarrow> I w'"
proof (induction n arbitrary: i w)
  case 0
  then show ?case by simp
next
  case (Suc n)
  from Suc.prems(2) obtain w1 where s: "f (arrays w a ! i) w = Inr w1"
    and r: "range_slice f a (Suc i) n w1 = Inr w'"
    by (auto split: sum.splits)
  from f[rule_format, OF Suc.prems(1) s] have "I w1" .
  from Suc.IH[OF this r] show ?case .
qed

lemma range_over_kept:
  assumes f: "\<forall>h w w'. I w \<longrightarrow> f h w = Inr w' \<longrightarrow> I w'"
    and "I w" "range_over f hs w = Inr w'"
  shows "I w'"
proof (cases hs)
  case None
  with assms(2,3) show ?thesis by (simp add: range_over_def)
next
  case (Some s)
  with assms(3) have "range_slice f (sarr s) 0 (slen s) w = Inr w'" by (simp add: range_over_def)
  from range_slice_kept[OF f assms(2) this] show ?thesis .
qed

lemma Publish_with_kept:
  assumes k: "kept I ok"
    and P: "\<forall>t v fl w w'. I w \<longrightarrow> P t v fl w = Inr w' \<longrightarrow> I w'"
    and "I w" "Publish_with P t v fl w = Inr (r, w')"
  shows "I w'"
proof (cases "foldl (OR) 0 fl AND Async \<noteq> 0")
  case True
  with assms(4) have g: "range_over (go_On t v) (fmlookup (topics w) t) w = Inr w'"
    by (auto simp: Publish_with_def Let_def split: sum.splits)
  have "\<forall>h w w'. I w \<longrightarrow> go_On t v h w = Inr w' \<longrightarrow> I w'"
    using go_On_kept[OF k] by blast
  from range_over_kept[OF this assms(3) g] show ?thesis .
next
  case False
  with assms(4) have g: "range_over (On P t v) (fmlookup (topics w) t) w = Inr w'"
    by (auto simp: Publish_with_def Let_def split: sum.splits)
  have "\<forall>h w w'. I w \<longrightarrow> On P t v h w = Inr w' \<longrightarrow> I w'"
    using On_kept[OF k P] by blast
  from range_over_kept[OF this assms(3) g] show ?thesis .
qed

lemma nested_kept:
  assumes k: "kept I ok"
  shows "\<forall>t v fl w w'. I w \<longrightarrow> nested d t v fl w = Inr w' \<longrightarrow> I w'"
proof (induction d)
  case 0
  then show ?case by simp
next
  case (Suc d)
  show ?case
  proof (intro allI impI)
    fix t v fl w w'
    assume i: "I w" and n: "nested (Suc d) t v fl w = Inr w'"
    from n obtain r where "Publish_with (nested d) t v fl w = Inr (r, w')"
      by (auto split: sum.splits)
    from Publish_with_kept[OF k Suc.IH i this] show "I w'" .
  qed
qed

lemma Publish_kept:
  assumes "kept I ok" "I w" "Publish d t v fl w = Inr (r, w')"
  shows "I w'"
  using Publish_with_kept[OF assms(1) nested_kept[OF assms(1)] assms(2)] assms(3)
  unfolding Publish_def by blast

lemma publish_all_loop_kept:
  assumes k: "kept I ok"
  shows "I w \<Longrightarrow> publish_all_loop ks v c w = Inr (c', w') \<Longrightarrow> I w'"
proof (induction ks arbitrary: c w)
  case Nil
  then show ?case by simp
next
  case (Cons t ks)
  from Cons.prems(2) obtain w1 where
    g: "range_over (go_On t v) (fmlookup (topics w) t) w = Inr w1"
    and r: "publish_all_loop ks v (c + len (fmlookup (topics w) t)) w1 = Inr (c', w')"
    by (auto simp: Let_def split: sum.splits)
  have "\<forall>h w w'. I w \<longrightarrow> go_On t v h w = Inr w' \<longrightarrow> I w'"
    using go_On_kept[OF k] by blast
  from range_over_kept[OF this Cons.prems(1) g] have "I w1" .
  from Cons.IH[OF this r] show ?case .
qed

lemma PublishAll_kept:
  assumes "kept I ok" "I w" "PublishAll ks v w = Inr (r, w')"
  shows "I w'"
proof -
  from assms(3) obtain c where "publish_all_loop ks v 0 w = Inr (c, w')"
    by (auto simp: PublishAll_def split: sum.splits)
  from publish_all_loop_kept[OF assms(1,2) this] show ?thesis .
qed

lemma wf_calls [simp]: "well_formed (w\<lparr>calls := x\<rparr>) = well_formed w"
  by (simp add: well_formed_def)

lemma wf_spawned [simp]: "well_formed (w\<lparr>spawned := x\<rparr>) = well_formed w"
  by (simp add: well_formed_def)

lemma wf_body_nextp [simp]: "well_formed (w\<lparr>nextp := n, body := b\<rparr>) = well_formed w"
  by (simp add: well_formed_def)

lemma kept_wf: "kept well_formed (\<lambda>c. True)"
  unfolding kept_def
proof (intro conjI allI impI)
  fix t h and w :: "('a, 'b, 'c) world_scheme" assume "well_formed w"
  then show "well_formed (snd (Subscribe t h w))" by (rule Subscribe_wf)
next
  fix t h b and w w' :: "('a, 'b, 'c) world_scheme"
  assume "well_formed w" "Unsubscribe t h w = Inr (b, w')"
  then show "well_formed w'" by (rule Unsubscribe_wf)
qed simp_all

lemma SubscribeFunc_wf: "well_formed w \<Longrightarrow> well_formed (snd (SubscribeFunc t fn w))"
  unfolding SubscribeFunc_def by (rule Subscribe_wf) simp

lemma reachable_wf: "reachable w \<Longrightarrow> well_formed w"
proof (induction rule: reachable.induct)
  case (new w)
  show ?case by (rule wf_NewBus)
next
  case (subscribe w t h)
  then show ?case by (simp add: Subscribe_wf)
next
  case (subscribe_func w t fn)
  then show ?case by (simp add: SubscribeFunc_wf)
next
  case (unsubscribe w t h b w')
  from Unsubscribe_wf[OF unsubscribe.IH unsubscribe.hyps(2)] show ?case .
next
  case (publish w d t v fl r w')
  from Publish_kept[OF kept_wf publish.IH publish.hyps(2)] show ?case .
next
  case (publish_all w ks v r w')
  from PublishAll_kept[OF kept_wf publish_all.IH publish_all.hyps(2)] show ?case .
qed


lemma wf_key_iff: "well_formed w \<Longrightarrow> (t \<in> fmdom' (topics w)) = (handlers w t \<noteq> [])"
proof (cases "fmlookup (topics w) t")
  case None
  then show ?thesis by (simp add: handlers_None fmdom'_notI)
next
  case (Some s)
  assume "well_formed w"
  from wfD[OF this Some] have "take (slen s) (arrays w (sarr s)) \<noteq> []" by auto
  then show ?thesis using Some by (simp add: handlers_Some fmdom'I)
qed

section \<open>Topic keys\<close>

text \<open>
  Claim C5. In every state of a bus reachable from \<^verbatim>\<open>NewBus()\<close> by calls of
  \<^verbatim>\<open>Subscribe\<close>, \<^verbatim>\<open>SubscribeFunc\<close>, \<^verbatim>\<open>Unsubscribe\<close>, \<^verbatim>\<open>Publish\<close> and \<^verbatim>\<open>PublishAll\<close>, a topic
  is a key of the map exactly when its handler list is not empty; \<^verbatim>\<open>NewBus()\<close> gives an
  empty map; and removing the last handler of a topic removes the key.
\<close>

theorem topic_key_iff_handlers:
  assumes "reachable w"
  shows "(t \<in> fmdom' (topics w) \<longleftrightarrow> handlers w t \<noteq> []) \<and>
         topics (NewBus w) = fmempty \<and>
         (\<forall>h w'. handlers w t = [h] \<longrightarrow> Unsubscribe t h w = Inr (True, w') \<longrightarrow>
            t \<notin> fmdom' (topics w'))"
proof (intro conjI allI impI)
  show "t \<in> fmdom' (topics w) \<longleftrightarrow> handlers w t \<noteq> []"
    by (rule wf_key_iff[OF reachable_wf[OF assms]])
  show "topics (NewBus w) = fmempty" by (simp add: NewBus_def)
next
  fix h w' assume hs: "handlers w t = [h]" and u: "Unsubscribe t h w = Inr (True, w')"
  from Unsubscribe_True(2,3)[OF reachable_wf[OF assms] u] hs
  have "fmlookup (topics w') t = None" by simp
  then show "t \<notin> fmdom' (topics w')" by (rule fmdom'_notI)
qed

theorem topic_key_iff_handlers_witness:
  "reachable (snd (Subscribe ''t'' (Ptr 1) (NewBus (heap0 idle)))) \<and>
   ''t'' \<in> fmdom' (topics (snd (Subscribe ''t'' (Ptr 1) (NewBus (heap0 idle))))) \<and>
   handlers (snd (Subscribe ''t'' (Ptr 1) (NewBus (heap0 idle)))) ''t'' = [Ptr 1] \<and>
   (\<exists>w'. Unsubscribe ''t'' (Ptr 1) (snd (Subscribe ''t'' (Ptr 1) (NewBus (heap0 idle)))) =
            Inr (True, w') \<and> ''t'' \<notin> fmdom' (topics w'))"
proof -
  let ?w = "snd (Subscribe ''t'' (Ptr 1) (NewBus (heap0 idle)))"
  have r: "reachable ?w" by (intro reachable.subscribe reachable.new)
  have hs: "handlers ?w ''t'' = [Ptr 1]"
    by (simp add: Subscribe_handlers_same wf_NewBus handlers_NewBus)
  have c: "comparable (Ptr 1)" by (simp add: comparable_def)
  from Unsubscribe_comparable[OF reachable_wf[OF r] c, of "''t''"] hs
  obtain w' where u: "Unsubscribe ''t'' (Ptr 1) ?w = Inr (True, w')" by auto
  from topic_key_iff_handlers[OF r, of "''t''"] hs u
  have "''t'' \<in> fmdom' (topics ?w)" "''t'' \<notin> fmdom' (topics w')" by simp_all
  with r hs u show ?thesis by simp
qed

section \<open>What the dispatch loops do\<close>

lemma take_Suc_drop: "i < length xs \<Longrightarrow> take (Suc k) (drop i xs) = xs ! i # take k (drop (Suc i) xs)"
  by (simp add: Cons_nth_drop_Suc[symmetric])

lemma range_slice_go_On:
  "i + k \<le> length (arrays w a) \<Longrightarrow>
   range_slice (go_On t v) a i k w =
     (if HNil \<in> set (take k (drop i (arrays w a))) then Inl NilHandlerPanic
      else Inr (w\<lparr>spawned := spawned w @ map (\<lambda>h. (h, t, v)) (take k (drop i (arrays w a)))\<rparr>))"
proof (induction k arbitrary: i w)
  case 0
  then show ?case by simp
next
  case (Suc k)
  have i: "i < length (arrays w a)" using Suc.prems by simp
  note ts = take_Suc_drop[OF i, of k]
  show ?case
  proof (cases "arrays w a ! i = HNil")
    case True
    then show ?thesis by (simp add: ts go_On_def)
  next
    case False
    let ?w1 = "w\<lparr>spawned := spawned w @ [(arrays w a ! i, t, v)]\<rparr>"
    have g: "go_On t v (arrays w a ! i) w = Inr ?w1" using False by (simp add: go_On_def)
    have b: "Suc i + k \<le> length (arrays ?w1 a)" using Suc.prems by simp
    show ?thesis using False by (simp add: g Suc.IH[OF b] ts del: take_Suc_Cons)
  qed
qed

lemma range_slice_On_idle:
  "i + k \<le> length (arrays w a) \<Longrightarrow>
   \<forall>h\<in>set (take k (drop i (arrays w a))). h \<noteq> HNil \<and> body w h t v = [] \<Longrightarrow>
   range_slice (On P t v) a i k w =
     Inr (w\<lparr>calls := calls w @ map (\<lambda>h. (h, t, v)) (take k (drop i (arrays w a)))\<rparr>)"
proof (induction k arbitrary: i w)
  case 0
  then show ?case by simp
next
  case (Suc k)
  have i: "i < length (arrays w a)" using Suc.prems by simp
  note ts = take_Suc_drop[OF i, of k]
  let ?w1 = "w\<lparr>calls := calls w @ [(arrays w a ! i, t, v)]\<rparr>"
  have g: "On P t v (arrays w a ! i) w = Inr ?w1" using Suc.prems(2) by (simp add: ts On_def)
  have b: "Suc i + k \<le> length (arrays ?w1 a)" using Suc.prems by simp
  have c: "\<forall>h\<in>set (take k (drop (Suc i) (arrays ?w1 a))). h \<noteq> HNil \<and> body ?w1 h t v = []"
    using Suc.prems(2) by (simp add: ts)
  show ?case by (simp add: g Suc.IH[OF b c] ts del: take_Suc_Cons)
qed

lemma len_handlers: "well_formed w \<Longrightarrow> len (fmlookup (topics w) t) = int (length (handlers w t))"
  by (cases "fmlookup (topics w) t")
     (auto simp: len_def handlers_def elems_def dest: wfD(3))

lemma range_over_go_On:
  assumes "well_formed w"
  shows "range_over (go_On t v) (fmlookup (topics w) t') w =
     (if HNil \<in> set (handlers w t') then Inl NilHandlerPanic
      else Inr (w\<lparr>spawned := spawned w @ map (\<lambda>h. (h, t, v)) (handlers w t')\<rparr>))"
proof (cases "fmlookup (topics w) t'")
  case None
  then show ?thesis by (simp add: range_over_def handlers_None)
next
  case (Some s)
  have "0 + slen s \<le> length (arrays w (sarr s))" using wfD(3)[OF assms Some] by simp
  from range_slice_go_On[OF this] show ?thesis
    using Some by (simp add: range_over_def handlers_Some)
qed

lemma range_over_On_idle:
  assumes "well_formed w" "\<forall>h\<in>set (handlers w t'). h \<noteq> HNil \<and> body w h t v = []"
  shows "range_over (On P t v) (fmlookup (topics w) t') w =
     Inr (w\<lparr>calls := calls w @ map (\<lambda>h. (h, t, v)) (handlers w t')\<rparr>)"
proof (cases "fmlookup (topics w) t'")
  case None
  then show ?thesis by (simp add: range_over_def handlers_None)
next
  case (Some s)
  have b: "0 + slen s \<le> length (arrays w (sarr s))" using wfD(3)[OF assms(1) Some] by simp
  have c: "\<forall>h\<in>set (take (slen s) (drop 0 (arrays w (sarr s)))). h \<noteq> HNil \<and> body w h t v = []"
    using assms(2) Some by (simp add: handlers_Some)
  from range_slice_On_idle[OF b c] show ?thesis
    using Some by (simp add: range_over_def handlers_Some)
qed

lemma Publish_result:
  assumes "Publish d t v fl w = Inr ((n, e), w')"
  shows "n = len (fmlookup (topics w) t) \<and> e = None"
  using assms by (auto simp: Publish_def Publish_with_def Let_def split: if_splits sum.splits)

lemma Publish_async:
  assumes "well_formed w" "foldl (OR) 0 fl AND Async \<noteq> 0"
  shows "Publish d t v fl w =
     (if HNil \<in> set (handlers w t) then Inl NilHandlerPanic
      else Inr ((int (length (handlers w t)), None),
                w\<lparr>spawned := spawned w @ map (\<lambda>h. (h, t, v)) (handlers w t)\<rparr>))"
  using assms(2)
  by (simp add: Publish_def Publish_with_def Let_def range_over_go_On[OF assms(1)]
      len_handlers[OF assms(1)])

lemma Publish_idle:
  assumes "well_formed w" "\<not> foldl (OR) 0 fl AND Async \<noteq> 0"
    and "\<forall>h\<in>set (handlers w t). h \<noteq> HNil \<and> body w h t v = []"
  shows "Publish d t v fl w =
     Inr ((int (length (handlers w t)), None),
          w\<lparr>calls := calls w @ map (\<lambda>h. (h, t, v)) (handlers w t)\<rparr>)"
  using assms(2)
  by (simp add: Publish_def Publish_with_def Let_def range_over_On_idle[OF assms(1,3)]
      len_handlers[OF assms(1)])

lemma Publish_no_handlers:
  assumes "well_formed w" "handlers w t = []"
  shows "Publish d t v fl w = Inr ((0, None), w)"
proof (cases "foldl (OR) 0 fl AND Async \<noteq> 0")
  case True
  from Publish_async[OF assms(1) True, of d t v] assms(2) show ?thesis by simp
next
  case False
  from Publish_idle[OF assms(1) False, of t v d] assms(2) show ?thesis by simp
qed

lemma PublishAll_result:
  assumes "PublishAll ks v w = Inr ((n, e), w')"
  shows "e = None"
  using assms by (auto simp: PublishAll_def split: sum.splits)


lemma wf_once_done [simp]: "well_formed (p\<lparr>once_done := x\<rparr>) = well_formed p"
  by (simp add: well_formed_def)

lemma handlers_once_done [simp]: "handlers (p\<lparr>once_done := x\<rparr>) t = handlers p t"
  by (simp add: handlers_def elems_def cong: option.case_cong)

lemma getDefaultBus_wf: "well_formed p \<Longrightarrow> well_formed (getDefaultBus p)"
  by (simp add: getDefaultBus_def wf_NewBus)

lemma getDefaultBus_first: "\<not> once_done p \<Longrightarrow> handlers (getDefaultBus p) t = []"
  by (simp add: getDefaultBus_def handlers_NewBus)

section \<open>The results of Publish\<close>

text \<open>
  Claim C6. Whenever \<^verbatim>\<open>Publish\<close> returns, for any topic, value and flags, its count is
  the length of the handler list it read and its error is nil. It does return, with
  count 0 and the state unchanged, when the topic has no subscriber, on a bus fresh from
  \<^verbatim>\<open>NewBus\<close> and on the default bus at its first use in particular; and it returns when
  the handlers it calls are not nil and leave the bus alone. \<^verbatim>\<open>PublishAll\<close> returns a nil
  error whenever it returns.
\<close>

theorem Publish_count_and_nil_error:
  assumes "well_formed w"
  shows "(\<forall>n e w'. Publish d t v fl w = Inr ((n, e), w') \<longrightarrow>
            n = int (length (handlers w t)) \<and> e = None) \<and>
         (handlers w t = [] \<longrightarrow> Publish d t v fl w = Inr ((0, None), w)) \<and>
         Publish d t v fl (NewBus w) = Inr ((0, None), NewBus w) \<and>
         (\<not> once_done p \<longrightarrow> Publish_default d t v fl p = Inr ((0, None), getDefaultBus p)) \<and>
         ((\<forall>h\<in>set (handlers w t). h \<noteq> HNil \<and> body w h t v = []) \<longrightarrow>
            (\<exists>w'. Publish d t v fl w = Inr ((int (length (handlers w t)), None), w'))) \<and>
         (\<forall>ks n e w'. PublishAll ks v w = Inr ((n, e), w') \<longrightarrow> e = None)"
proof (intro conjI allI impI)
  fix n e w' assume "Publish d t v fl w = Inr ((n, e), w')"
  from Publish_result[OF this] len_handlers[OF assms, of t]
  show "n = int (length (handlers w t))" "e = None" by simp_all
next
  assume "handlers w t = []"
  then show "Publish d t v fl w = Inr ((0, None), w)" by (rule Publish_no_handlers[OF assms])
next
  show "Publish d t v fl (NewBus w) = Inr ((0, None), NewBus w)"
    by (rule Publish_no_handlers[OF wf_NewBus handlers_NewBus])
next
  assume "\<not> once_done p"
  then have "well_formed (getDefaultBus p)" "handlers (getDefaultBus p) t = []"
    by (simp_all add: getDefaultBus_def wf_NewBus handlers_NewBus)
  then show "Publish_default d t v fl p = Inr ((0, None), getDefaultBus p)"
    unfolding Publish_default_def by (rule Publish_no_handlers)
next
  assume idle: "\<forall>h\<in>set (handlers w t). h \<noteq> HNil \<and> body w h t v = []"
  show "\<exists>w'. Publish d t v fl w = Inr ((int (length (handlers w t)), None), w')"
  proof (cases "foldl (OR) 0 fl AND Async \<noteq> 0")
    case True
    from Publish_async[OF assms True, of d t v] idle show ?thesis by auto
  next
    case False
    from Publish_idle[OF assms False idle, of d] show ?thesis by simp
  qed
next
  fix ks n e w' assume "PublishAll ks v w = Inr ((n, e), w')"
  then show "e = None" by (rule PublishAll_result)
qed

theorem Publish_count_and_nil_error_witness:
  "well_formed (snd (Subscribe ''t'' (Ptr 2) (snd (Subscribe ''t'' (Ptr 1) (NewBus (heap0 idle)))))) \<and>
   (\<exists>w'. Publish 0 ''t'' ''v'' []
            (snd (Subscribe ''t'' (Ptr 2) (snd (Subscribe ''t'' (Ptr 1) (NewBus (heap0 idle)))))) =
          Inr ((2, None), w')) \<and>
   Publish 0 ''u'' ''v'' [Async]
     (snd (Subscribe ''t'' (Ptr 2) (snd (Subscribe ''t'' (Ptr 1) (NewBus (heap0 idle)))))) =
     Inr ((0, None), snd (Subscribe ''t'' (Ptr 2) (snd (Subscribe ''t'' (Ptr 1) (NewBus (heap0 idle))))))"
proof -
  let ?w = "snd (Subscribe ''t'' (Ptr 2) (snd (Subscribe ''t'' (Ptr 1) (NewBus (heap0 idle)))))"
  have w: "well_formed ?w" by (intro Subscribe_wf wf_NewBus)
  have hs: "handlers ?w ''t'' = [Ptr 1, Ptr 2]"
    by (simp add: Subscribe_handlers_same wf_NewBus Subscribe_wf handlers_NewBus)
  have hu: "handlers ?w ''u'' = []"
    by (simp add: Subscribe_handlers_other wf_NewBus Subscribe_wf handlers_NewBus)
  have b: "body ?w = idle" by (simp add: Subscribe_fields NewBus_def heap0_def)
  have i: "\<forall>h\<in>set (handlers ?w ''t''). h \<noteq> HNil \<and> body ?w h ''t'' ''v'' = []"
    unfolding hs b by (simp add: idle_def)
  note th = Publish_count_and_nil_error[OF w]
  have "\<exists>w'. Publish 0 ''t'' ''v'' [] ?w = Inr ((int (length (handlers ?w ''t'')), None), w')"
    by (rule th[of 0 "''t''" "''v''" "[]", THEN conjunct2, THEN conjunct2, THEN conjunct2,
          THEN conjunct2, THEN conjunct1, THEN mp, OF i])
  then have 1: "\<exists>w'. Publish 0 ''t'' ''v'' [] ?w = Inr ((2, None), w')"
    unfolding hs by simp
  have 2: "Publish 0 ''u'' ''v'' [Async] ?w = Inr ((0, None), ?w)"
    by (rule th[of 0 "''u''" "''v''" "[Async]", THEN conjunct2, THEN conjunct1, THEN mp, OF hu])
  from w 1 2 show ?thesis by (intro conjI)
qed


section \<open>PublishAll\<close>

lemma handlers_spawned [simp]: "handlers (w\<lparr>spawned := x\<rparr>) t = handlers w t"
  by (simp add: handlers_def elems_def cong: option.case_cong)

lemma handlers_calls [simp]: "handlers (w\<lparr>calls := x\<rparr>) t = handlers w t"
  by (simp add: handlers_def elems_def cong: option.case_cong)

lemma len_spawned [simp]: "len (fmlookup (topics (w\<lparr>spawned := x\<rparr>)) t) = len (fmlookup (topics w) t)"
  by simp

lemma publish_all_loop_eq:
  "well_formed w \<Longrightarrow> publish_all_loop ks v c w =
     (if \<exists>t\<in>set ks. HNil \<in> set (handlers w t) then Inl NilHandlerPanic
      else Inr (c + (\<Sum>t\<leftarrow>ks. int (length (handlers w t))),
                w\<lparr>spawned := spawned w @
                     concat (map (\<lambda>t. map (\<lambda>h. (h, t, v)) (handlers w t)) ks)\<rparr>))"
proof (induction ks arbitrary: c w)
  case Nil
  then show ?case by simp
next
  case (Cons t ks)
  show ?case
  proof (cases "HNil \<in> set (handlers w t)")
    case True
    then show ?thesis by (simp add: range_over_go_On[OF Cons.prems])
  next
    case False
    let ?w1 = "w\<lparr>spawned := spawned w @ map (\<lambda>h. (h, t, v)) (handlers w t)\<rparr>"
    have w1: "well_formed ?w1" using Cons.prems by simp
    show ?thesis
      using False
      by (simp add: range_over_go_On[OF Cons.prems] Cons.IH[OF w1] len_handlers[OF Cons.prems]
          add.assoc)
  qed
qed

lemma length_filter_concat:
  "length (filter P (concat (map g ks))) = (\<Sum>t\<leftarrow>ks. length (filter P (g t)))"
  by (induction ks) simp_all

lemma length_filter_tag:
  "length (filter (\<lambda>x. fst x = h) (map (\<lambda>h'. (h', t, v)) hs)) = count_list hs h"
  by (induction hs) simp_all

lemma sum_count_le_1:
  assumes "finite A" "\<forall>t\<in>A. count_list (f t) h \<le> 1"
  shows "(\<Sum>t\<in>A. count_list (f t) h) = card {t \<in> A. h \<in> set (f t)}"
proof -
  have "\<And>t. t \<in> A \<Longrightarrow> count_list (f t) h = (if h \<in> set (f t) then 1 else 0)"
  proof -
    fix t assume "t \<in> A"
    with assms(2) have "count_list (f t) h \<le> 1" by blast
    moreover have "count_list (f t) h = 0 \<longleftrightarrow> h \<notin> set (f t)" by (rule count_list_0_iff)
    ultimately show "count_list (f t) h = (if h \<in> set (f t) then 1 else 0)" by auto
  qed
  then have "(\<Sum>t\<in>A. count_list (f t) h) = (\<Sum>t\<in>A. if h \<in> set (f t) then 1 else 0)"
    by (intro sum.cong) simp_all
  also have "\<dots> = card {t \<in> A. h \<in> set (f t)}"
    using assms(1) by (simp add: sum.If_cases Int_def)
  finally show ?thesis .
qed


lemma Subscribe_dom: "fmdom' (topics (snd (Subscribe t h w))) = insert t (fmdom' (topics w))"
  by (cases rule: Subscribe_cases[of w t])
     (auto simp: Subscribe_new Subscribe_room Subscribe_grow dest: fmdom'I)

lemma NewBus_dom: "fmdom' (topics (NewBus w)) = {}"
  by (simp add: NewBus_def)

text \<open>
  Claim C7. Whenever \<^verbatim>\<open>PublishAll(v)\<close> returns, its count is the sum of the lengths of
  the handler lists of all topics at the time of the call, and it has started one call
  \<^verbatim>\<open>h.On(b, t, v)\<close> for every element \<open>h\<close> of the list of every topic \<open>t\<close>: a handler is
  started as many times as it occurs in all the lists together, so one that is
  subscribed once to each of \<open>n\<close> topics is counted and started \<open>n\<close> times. It does
  return when no list holds a nil handler.
\<close>

theorem PublishAll_counts_all_topics:
  assumes "well_formed w" "distinct ks" "set ks = fmdom' (topics w)"
  shows "(\<forall>c e w'. PublishAll ks v w = Inr ((c, e), w') \<longrightarrow>
            c = (\<Sum>t\<in>fmdom' (topics w). int (length (handlers w t))) \<and>
            spawned w' = spawned w @ concat (map (\<lambda>t. map (\<lambda>h. (h, t, v)) (handlers w t)) ks) \<and>
            (\<forall>h. length (filter (\<lambda>x. fst x = h) (drop (length (spawned w)) (spawned w'))) =
                  (\<Sum>t\<in>fmdom' (topics w). count_list (handlers w t) h)) \<and>
            (\<forall>h. (\<forall>t. count_list (handlers w t) h \<le> 1) \<longrightarrow>
                  length (filter (\<lambda>x. fst x = h) (drop (length (spawned w)) (spawned w'))) =
                  card {t \<in> fmdom' (topics w). h \<in> set (handlers w t)})) \<and>
         ((\<forall>t. HNil \<notin> set (handlers w t)) \<longrightarrow>
            (\<exists>c w'. PublishAll ks v w = Inr ((c, None), w')))"
proof (intro conjI allI impI)
  fix c e w' assume p: "PublishAll ks v w = Inr ((c, e), w')"
  let ?new = "concat (map (\<lambda>t. map (\<lambda>h. (h, t, v)) (handlers w t)) ks)"
  from p have nn: "\<not> (\<exists>t\<in>set ks. HNil \<in> set (handlers w t))"
    by (auto simp: PublishAll_def publish_all_loop_eq[OF assms(1)] split: if_splits)
  from p nn have c: "c = (\<Sum>t\<leftarrow>ks. int (length (handlers w t)))"
    and w': "w' = w\<lparr>spawned := spawned w @ ?new\<rparr>"
    by (simp_all add: PublishAll_def publish_all_loop_eq[OF assms(1)])
  show "c = (\<Sum>t\<in>fmdom' (topics w). int (length (handlers w t)))"
    unfolding c assms(3)[symmetric] by (rule sum_list_distinct_conv_sum_set[OF assms(2)])
  show sp: "spawned w' = spawned w @ ?new" by (simp add: w')
  have cnt: "length (filter (\<lambda>x. fst x = h) (drop (length (spawned w)) (spawned w'))) =
        (\<Sum>t\<in>fmdom' (topics w). count_list (handlers w t) h)" for h
  proof -
    have "length (filter (\<lambda>x. fst x = h) ?new) = (\<Sum>t\<leftarrow>ks. count_list (handlers w t) h)"
      unfolding length_filter_concat length_filter_tag ..
    also have "\<dots> = (\<Sum>t\<in>set ks. count_list (handlers w t) h)"
      by (rule sum_list_distinct_conv_sum_set[OF assms(2)])
    finally show ?thesis by (simp add: sp assms(3))
  qed
  show "length (filter (\<lambda>x. fst x = h) (drop (length (spawned w)) (spawned w'))) =
        (\<Sum>t\<in>fmdom' (topics w). count_list (handlers w t) h)" for h
    by (rule cnt)
  show "length (filter (\<lambda>x. fst x = h) (drop (length (spawned w)) (spawned w'))) =
        card {t \<in> fmdom' (topics w). h \<in> set (handlers w t)}"
    if "\<forall>t. count_list (handlers w t) h \<le> 1" for h
  proof -
    have f: "finite (fmdom' (topics w))" unfolding assms(3)[symmetric] by simp
    have "\<forall>t\<in>fmdom' (topics w). count_list (handlers w t) h \<le> 1" using that by blast
    from sum_count_le_1[OF f this] cnt[of h] show ?thesis by simp
  qed
next
  assume "\<forall>t. HNil \<notin> set (handlers w t)"
  then show "\<exists>c w'. PublishAll ks v w = Inr ((c, None), w')"
    by (simp add: PublishAll_def publish_all_loop_eq[OF assms(1)])
qed


theorem PublishAll_counts_all_topics_witness:
  "well_formed (snd (Subscribe ''b'' (Ptr 3) (snd (Subscribe ''a'' (Ptr 2)
         (snd (Subscribe ''a'' (Ptr 3) (NewBus (heap0 idle)))))))) \<and>
   distinct [''a'', ''b''] \<and>
   set [''a'', ''b''] = fmdom' (topics (snd (Subscribe ''b'' (Ptr 3) (snd (Subscribe ''a'' (Ptr 2)
         (snd (Subscribe ''a'' (Ptr 3) (NewBus (heap0 idle))))))))) \<and>
   (\<exists>w'. PublishAll [''a'', ''b''] ''v'' (snd (Subscribe ''b'' (Ptr 3) (snd (Subscribe ''a'' (Ptr 2)
         (snd (Subscribe ''a'' (Ptr 3) (NewBus (heap0 idle)))))))) = Inr ((3, None), w') \<and>
      length (filter (\<lambda>x. fst x = Ptr 3) (drop 0 (spawned w'))) = 2)"
proof -
  let ?w = "snd (Subscribe ''b'' (Ptr 3) (snd (Subscribe ''a'' (Ptr 2)
         (snd (Subscribe ''a'' (Ptr 3) (NewBus (heap0 idle)))))))"
  have w: "well_formed ?w" by (intro Subscribe_wf wf_NewBus)
  have d: "distinct [''a'', ''b'']" by simp
  have k: "set [''a'', ''b''] = fmdom' (topics ?w)"
    by (simp add: Subscribe_dom NewBus_dom insert_commute)
  have ha: "handlers ?w ''a'' = [Ptr 3, Ptr 2]"
    by (simp add: Subscribe_handlers_same Subscribe_handlers_other wf_NewBus Subscribe_wf
        handlers_NewBus)
  have hb: "handlers ?w ''b'' = [Ptr 3]"
    by (simp add: Subscribe_handlers_same Subscribe_handlers_other wf_NewBus Subscribe_wf
        handlers_NewBus)
  have ho: "handlers ?w t = []" if "t \<noteq> ''a''" "t \<noteq> ''b''" for t
    using that
    by (simp add: Subscribe_handlers_same Subscribe_handlers_other wf_NewBus Subscribe_wf
        handlers_NewBus)
  have nn: "\<forall>t. HNil \<notin> set (handlers ?w t)"
  proof
    fix t show "HNil \<notin> set (handlers ?w t)"
      by (cases "t = ''a''"; cases "t = ''b''") (simp_all add: ha hb ho)
  qed
  have sp: "spawned ?w = []" by (simp add: Subscribe_fields NewBus_def heap0_def)
  note th = PublishAll_counts_all_topics[OF w d k, of "''v''"]
  from th[THEN conjunct2, THEN mp, OF nn] obtain c w'
    where p: "PublishAll [''a'', ''b''] ''v'' ?w = Inr ((c, None), w')" by blast
  note r = th[THEN conjunct1, rule_format, OF p]
  have "c = (\<Sum>t\<in>set [''a'', ''b'']. int (length (handlers ?w t)))"
    using r[THEN conjunct1] unfolding k .
  then have c: "c = 3" by (simp add: ha hb)
  have "length (filter (\<lambda>x. fst x = Ptr 3) (drop (length (spawned ?w)) (spawned w'))) =
        (\<Sum>t\<in>set [''a'', ''b'']. count_list (handlers ?w t) (Ptr 3))"
    using r[THEN conjunct2, THEN conjunct2, THEN conjunct1, rule_format, of "Ptr 3"] unfolding k .
  then have n: "length (filter (\<lambda>x. fst x = Ptr 3) (drop 0 (spawned w'))) = 2"
    unfolding sp by (simp add: ha hb)
  from p c n have "\<exists>w'. PublishAll [''a'', ''b''] ''v'' ?w = Inr ((3, None), w') \<and>
      length (filter (\<lambda>x. fst x = Ptr 3) (drop 0 (spawned w'))) = 2" by blast
  with w d k show ?thesis by (intro conjI)
qed

section \<open>Publish while a handler unsubscribes\<close>

text \<open>
  Claim C1 does not hold of the code. \<^verbatim>\<open>Publish\<close> copies the slice header of the
  topic's list, not its elements, and \<^verbatim>\<open>Unsubscribe\<close> removes an element by
  \<^verbatim>\<open>append(a[:i], a[i+1:]...)\<close>, which moves the later elements down inside the same
  backing array. With the handlers \<open>Ptr 1\<close>, \<open>Ptr 2\<close>, \<open>Ptr 3\<close> subscribed to a topic
  and \<open>Ptr 1\<close> unsubscribing itself when called, one synchronous \<^verbatim>\<open>Publish\<close> returns
  count 3 and has called \<open>Ptr 1\<close>, then \<open>Ptr 3\<close> twice, and \<open>Ptr 2\<close> not at all.
\<close>

theorem Publish_reads_moved_elements:
  "handlers three_handlers ''t'' = [Ptr 1, Ptr 2, Ptr 3] \<and>
   (\<exists>w'. Publish 0 ''t'' ''v'' [] three_handlers = Inr ((3, None), w') \<and>
          map fst (calls w') = [Ptr 1, Ptr 3, Ptr 3] \<and>
          handlers w' ''t'' = [Ptr 2, Ptr 3])"
  by (simp add: three_handlers_def heap0_def Subscribe_def NewBus_def handlers_def elems_def
      go_append_def Publish_def Publish_with_def range_over_def On_def leaves_def
      Unsubscribe_def len_def Let_def numeral_3_eq_3)

section \<open>The package-level functions\<close>

lemma getDefaultBus_once_done: "once_done (getDefaultBus p)"
  by (simp add: getDefaultBus_def NewBus_def)

lemma getDefaultBus_idem: "getDefaultBus (getDefaultBus p) = getDefaultBus p"
  by (simp add: getDefaultBus_def NewBus_def)

lemma Subscribe_once_done: "once_done (snd (Subscribe t h p)) = once_done p"
  by (simp add: Subscribe_def go_append_def Let_def split: option.splits)

lemma Unsubscribe_once_done:
  "Unsubscribe t h p = Inr (b, p') \<Longrightarrow> once_done p' = once_done p"
  by (auto simp: Unsubscribe_def go_append_def Let_def
      split: option.splits sum.splits prod.splits if_splits)

lemma Subscribe_default_same_bus:
  "getDefaultBus (snd (Subscribe_default t h p)) = snd (Subscribe_default t h p)"
  by (simp add: Subscribe_default_def getDefaultBus_def[of "snd (Subscribe t h (getDefaultBus p))"]
      Subscribe_once_done getDefaultBus_once_done)

text \<open>
  Claim C3 does not hold of the package-level \<^verbatim>\<open>Unsubscribe\<close>. The package-level
  \<^verbatim>\<open>Subscribe\<close>, \<^verbatim>\<open>SubscribeFunc\<close> and \<^verbatim>\<open>Publish\<close> return what the method returns on the
  default bus, but \<^verbatim>\<open>Unsubscribe\<close> is declared without a result. After
  \<^verbatim>\<open>Subscribe("t", h)\<close> on the default bus, the method \<^verbatim>\<open>Unsubscribe("t", h)\<close> of the
  default bus returns true; the package-level \<^verbatim>\<open>Unsubscribe("t", h)\<close> leaves the same
  state and returns nothing.
\<close>

theorem Unsubscribe_default_returns_nothing:
  "\<exists>p'. Unsubscribe ''t'' (Ptr 2) (getDefaultBus (snd (Subscribe_default ''t'' (Ptr 2) process0))) =
           Inr (True, p') \<and>
         Unsubscribe_default ''t'' (Ptr 2) (snd (Subscribe_default ''t'' (Ptr 2) process0)) =
           Inr ((), p')"
  by (simp add: Unsubscribe_default_def Subscribe_default_def getDefaultBus_def process0_def
      Subscribe_def NewBus_def Unsubscribe_def elems_def go_append_def Let_def)

section \<open>The capability returned by Subscribe\<close>

lemma count_list_remove1:
  "h \<in> set xs \<Longrightarrow> count_list (remove1 h xs) h = count_list xs h - 1"
  by (induction xs) auto

lemma body_calls_simps [simp]:
  "body (w\<lparr>calls := x\<rparr>) = body w" "body (w\<lparr>spawned := x\<rparr>) = body w"
  by simp_all

lemma kept_absent:
  "kept (\<lambda>w. well_formed w \<and> h \<notin> set (handlers w t) \<and>
              (\<forall>h' t' v'. CSubscribe t h \<notin> set (body w h' t' v')))
        (\<lambda>c. c \<noteq> CSubscribe t h)"
  unfolding kept_def
proof (intro conjI allI impI)
  fix t1 h1 and w :: "('a, 'b, 'c) world_scheme"
  assume i: "well_formed w \<and> h \<notin> set (handlers w t) \<and> (\<forall>h' t' v'. CSubscribe t h \<notin> set (body w h' t' v'))"
    and ok: "CSubscribe t1 h1 \<noteq> (CSubscribe t h :: ('a, 'b) cmd)"
  show "well_formed (snd (Subscribe t1 h1 w))" using i by (simp add: Subscribe_wf)
  show "h \<notin> set (handlers (snd (Subscribe t1 h1 w)) t)"
  proof (cases "t1 = t")
    case True
    with ok have "h1 \<noteq> h" by simp
    with i True show ?thesis by (simp add: Subscribe_handlers_same)
  next
    case False
    with i show ?thesis by (simp add: Subscribe_handlers_other)
  qed
  fix h' t' v'
  show "CSubscribe t h \<notin> set (body (snd (Subscribe t1 h1 w)) h' t' v')"
    using i by (simp add: Subscribe_fields)
next
  fix t1 h1 b and w w' :: "('a, 'b, 'c) world_scheme"
  assume i: "well_formed w \<and> h \<notin> set (handlers w t) \<and> (\<forall>h' t' v'. CSubscribe t h \<notin> set (body w h' t' v'))"
    and u: "Unsubscribe t1 h1 w = Inr (b, w')"
  from i have w: "well_formed w" by simp
  show "well_formed w'" by (rule Unsubscribe_wf[OF w u])
  show "h \<notin> set (handlers w' t)"
  proof (cases "t1 = t")
    case False
    then have "t \<noteq> t1" by simp
    from Unsubscribe_handlers_other[OF w this u] i show ?thesis by simp
  next
    case True
    show ?thesis
    proof (cases b)
      case True
      with u \<open>t1 = t\<close> have "Unsubscribe t h1 w = Inr (True, w')" by simp
      from Unsubscribe_True(2)[OF w this] i show ?thesis
        by (metis notin_set_remove1)
    next
      case False
      with u have "Unsubscribe t1 h1 w = Inr (False, w')" by simp
      from Unsubscribe_False[OF this] i show ?thesis by simp
    qed
  qed
  fix h' t' v'
  show "CSubscribe t h \<notin> set (body w' h' t' v')"
    using i Unsubscribe_fields(2)[OF u] by simp
next
  fix w :: "('a, 'b, 'c) world_scheme" and h' t' v' c
  assume "well_formed w \<and> h \<notin> set (handlers w t) \<and> (\<forall>h' t' v'. CSubscribe t h \<notin> set (body w h' t' v'))"
    and "c \<in> set (body w h' t' v')"
  then show "c \<noteq> CSubscribe t h" by blast
qed simp_all


text \<open>
  Claim C4, as the code has it. The capability returned by \<^verbatim>\<open>Subscribe(t, h)\<close>, for \<open>h\<close>
  of a comparable dynamic type, is \<^verbatim>\<open>Unsubscribe(t, h)\<close> on the state it is invoked in:
  it returns true exactly when \<open>h\<close> is in the list of \<open>t\<close> at that moment, and then
  removes one occurrence of \<open>h\<close>. So once \<open>h\<close> is no longer in the list of \<open>t\<close> (after
  the first successful invocation when \<open>h\<close> was subscribed to \<open>t\<close> once), an invocation
  returns false and changes nothing, and it still does after any sequence of
  \<^verbatim>\<open>Subscribe\<close>, \<^verbatim>\<open>Unsubscribe\<close> and \<^verbatim>\<open>Publish\<close> calls in which neither the caller nor a
  handler subscribes \<open>h\<close> to \<open>t\<close> again.
\<close>

theorem capability_removes_one_occurrence:
  assumes "well_formed w" "comparable h"
  shows "call_unsubscribe (fst (Subscribe t h w0)) w = Unsubscribe t h w \<and>
         (\<exists>w'. call_unsubscribe (fst (Subscribe t h w0)) w = Inr (h \<in> set (handlers w t), w') \<and>
               count_list (handlers w' t) h =
                 count_list (handlers w t) h - (if h \<in> set (handlers w t) then 1 else 0)) \<and>
         (h \<notin> set (handlers w t) \<longrightarrow> (\<forall>h' t' v'. CSubscribe t h \<notin> set (body w h' t' v')) \<longrightarrow>
            (\<forall>cs d w'. (\<forall>c\<in>set cs. c \<noteq> CSubscribe t h) \<longrightarrow> run (nested d) cs w = Inr w' \<longrightarrow>
               call_unsubscribe (fst (Subscribe t h w0)) w' = Inr (False, w')))"
proof (intro conjI allI impI)
  have c: "fst (Subscribe t h w0) = UnsubscribeFunc t h" by (simp add: Subscribe_def)
  show "call_unsubscribe (fst (Subscribe t h w0)) w = Unsubscribe t h w" by (simp add: c)
  from Unsubscribe_comparable[OF assms] obtain w'
    where u: "Unsubscribe t h w = Inr (h \<in> set (handlers w t), w')" by blast
  have "count_list (handlers w' t) h =
          count_list (handlers w t) h - (if h \<in> set (handlers w t) then 1 else 0)"
  proof (cases "h \<in> set (handlers w t)")
    case True
    with u have "Unsubscribe t h w = Inr (True, w')" by simp
    from Unsubscribe_True(2)[OF assms(1) this] True show ?thesis
      by (simp add: count_list_remove1)
  next
    case False
    with u have "Unsubscribe t h w = Inr (False, w')" by simp
    from Unsubscribe_False[OF this] False show ?thesis by simp
  qed
  with u show "\<exists>w'. call_unsubscribe (fst (Subscribe t h w0)) w = Inr (h \<in> set (handlers w t), w') \<and>
      count_list (handlers w' t) h =
        count_list (handlers w t) h - (if h \<in> set (handlers w t) then 1 else 0)"
    unfolding c by auto
next
  fix cs d w'
  assume a: "h \<notin> set (handlers w t)" and b: "\<forall>h' t' v'. CSubscribe t h \<notin> set (body w h' t' v')"
    and cs: "\<forall>c\<in>set cs. c \<noteq> CSubscribe t h" and r: "run (nested d) cs w = Inr w'"
  have c: "fst (Subscribe t h w0) = UnsubscribeFunc t h" by (simp add: Subscribe_def)
  let ?I = "\<lambda>w. well_formed w \<and> h \<notin> set (handlers w t) \<and> (\<forall>h' t' v'. CSubscribe t h \<notin> set (body w h' t' v'))"
  have i: "?I w" using assms(1) a b by simp
  have "?I w'"
    by (rule run_kept[where I = ?I, OF kept_absent nested_kept[OF kept_absent] i cs r])
  then have w': "well_formed w'" and n: "h \<notin> set (handlers w' t)" by simp_all
  from Unsubscribe_comparable[OF w' assms(2), of t] n obtain w''
    where u: "Unsubscribe t h w' = Inr (False, w'')" by auto
  from Unsubscribe_False[OF u] u show "call_unsubscribe (fst (Subscribe t h w0)) w' = Inr (False, w')"
    unfolding c by simp
qed


theorem capability_removes_one_occurrence_witness:
  "well_formed (snd (Subscribe ''t'' (Ptr 2) (NewBus (heap0 idle)))) \<and> comparable (Ptr 2) \<and>
   (\<exists>w2 w3.
      call_unsubscribe (fst (Subscribe ''t'' (Ptr 2) (NewBus (heap0 idle))))
        (snd (Subscribe ''t'' (Ptr 2) (NewBus (heap0 idle)))) = Inr (True, w2) \<and>
      call_unsubscribe (fst (Subscribe ''t'' (Ptr 2) (NewBus (heap0 idle)))) w2 = Inr (False, w2) \<and>
      run (nested 0) [CSubscribe ''t'' (Ptr 3), CSubscribe ''u'' (Ptr 2)] w2 = Inr w3 \<and>
      call_unsubscribe (fst (Subscribe ''t'' (Ptr 2) (NewBus (heap0 idle)))) w3 = Inr (False, w3))"
proof -
  let ?w0 = "NewBus (heap0 idle)"
  let ?w1 = "snd (Subscribe ''t'' (Ptr 2) ?w0)"
  let ?c = "fst (Subscribe ''t'' (Ptr 2) ?w0)"
  have w1: "well_formed ?w1" by (intro Subscribe_wf wf_NewBus)
  have cp: "comparable (Ptr 2)" by (simp add: comparable_def)
  have hs: "handlers ?w1 ''t'' = [Ptr 2]"
    by (simp add: Subscribe_handlers_same wf_NewBus handlers_NewBus)
  note th1 = capability_removes_one_occurrence[OF w1 cp, of "''t''" ?w0]
  from th1[THEN conjunct2, THEN conjunct1] obtain w2
    where u: "call_unsubscribe ?c ?w1 = Inr (Ptr 2 \<in> set (handlers ?w1 ''t''), w2)" by blast
  then have u1: "call_unsubscribe ?c ?w1 = Inr (True, w2)" unfolding hs by simp
  then have u2: "Unsubscribe ''t'' (Ptr 2) ?w1 = Inr (True, w2)" by (simp add: Subscribe_def)
  have w2: "well_formed w2" by (rule Unsubscribe_wf[OF w1 u2])
  have h2: "Ptr 2 \<notin> set (handlers w2 ''t'')"
    using Unsubscribe_True(2)[OF w1 u2] unfolding hs by simp
  have b2: "\<forall>h' t' v'. CSubscribe ''t'' (Ptr 2) \<notin> set (body w2 h' t' v')"
    using Unsubscribe_fields(2)[OF u2] by (simp add: Subscribe_fields NewBus_def heap0_def idle_def)
  note th2 = capability_removes_one_occurrence[OF w2 cp, of "''t''" ?w0,
      THEN conjunct2, THEN conjunct2, THEN mp, THEN mp, OF h2 b2, rule_format]
  have f2: "call_unsubscribe ?c w2 = Inr (False, w2)"
    by (rule th2[of "[]" 0]) simp_all
  let ?cs = "[CSubscribe ''t'' (Ptr 3), CSubscribe ''u'' (Ptr 2)]"
  let ?w3 = "snd (Subscribe ''u'' (Ptr 2) (snd (Subscribe ''t'' (Ptr 3) w2)))"
  have r: "run (nested 0) ?cs w2 = Inr ?w3" by simp
  have f3: "call_unsubscribe ?c ?w3 = Inr (False, ?w3)"
    by (rule th2[of ?cs 0, OF _ r]) auto
  from w1 cp u1 f2 r f3 show ?thesis by blast
qed

text \<open>
  The claim's "regardless of further subscriptions of the same handler" does not hold:
  with \<open>h\<close> subscribed to the topic twice, the capability of the first subscription
  returns true on its first invocation and true again on its second.
\<close>

theorem capability_true_twice:
  "(case call_unsubscribe (fst (Subscribe ''t'' (Ptr 2) (NewBus (heap0 idle))))
          (snd (Subscribe ''t'' (Ptr 2) (snd (Subscribe ''t'' (Ptr 2) (NewBus (heap0 idle)))))) of
      Inl e \<Rightarrow> False
    | Inr (b1, w3) \<Rightarrow>
        b1 \<and> (case call_unsubscribe (fst (Subscribe ''t'' (Ptr 2) (NewBus (heap0 idle)))) w3 of
                Inl e \<Rightarrow> False
              | Inr (b2, w4) \<Rightarrow> b2))"
  by (simp add: Subscribe_def NewBus_def heap0_def Unsubscribe_def elems_def go_append_def Let_def)

section \<open>SubscribeFunc\<close>

lemma handlers_nextp_body [simp]: "handlers (w\<lparr>nextp := n, body := b\<rparr>) t = handlers w t"
  by (simp add: handlers_def elems_def cong: option.case_cong)

lemma SubscribeFunc_cap: "fst (SubscribeFunc t fn w) = UnsubscribeFunc t (Ptr (nextp w))"
  by (simp add: SubscribeFunc_def Subscribe_def)

lemma SubscribeFunc_fields:
  "nextp (snd (SubscribeFunc t fn w)) = Suc (nextp w)"
  "body (snd (SubscribeFunc t fn w)) = (body w)(Ptr (nextp w) := fn)"
  by (simp_all add: SubscribeFunc_def Subscribe_fields)

lemma SubscribeFunc_handlers:
  assumes "well_formed w"
  shows "handlers (snd (SubscribeFunc t fn w)) t' =
           (if t' = t then handlers w t @ [Ptr (nextp w)] else handlers w t')"
  using assms by (simp add: SubscribeFunc_def Subscribe_handlers_same Subscribe_handlers_other)

lemma count_list_remove1_other:
  "a \<noteq> b \<Longrightarrow> count_list (remove1 a xs) b = count_list xs b"
  by (induction xs) auto

lemma remove1_snoc: "x \<notin> set xs \<Longrightarrow> remove1 x (xs @ [x]) = xs"
  by (simp add: remove1_append)

lemma kept_nextp: "kept (\<lambda>w. nextp w = n) (\<lambda>c. True)"
  unfolding kept_def
  by (auto simp: Subscribe_fields dest: Unsubscribe_fields(1))

lemma allocatedD: "allocated w \<Longrightarrow> Ptr p \<in> set (handlers w t) \<Longrightarrow> p < nextp w"
  unfolding allocated_def by blast

lemma allocated_NewBus: "allocated (NewBus w)"
  by (simp add: allocated_def handlers_NewBus)

lemma allocated_Subscribe:
  assumes "well_formed w" "allocated w" "\<forall>p. h = Ptr p \<longrightarrow> p < nextp w"
  shows "allocated (snd (Subscribe t h w))"
  unfolding allocated_def
proof (intro allI impI)
  fix t' p assume m: "Ptr p \<in> set (handlers (snd (Subscribe t h w)) t')"
  show "p < nextp (snd (Subscribe t h w))"
  proof (cases "t' = t")
    case True
    with m assms show ?thesis
      by (auto simp: Subscribe_handlers_same Subscribe_fields dest: allocatedD)
  next
    case False
    with m assms show ?thesis
      by (auto simp: Subscribe_handlers_other Subscribe_fields dest: allocatedD)
  qed
qed

lemma allocated_SubscribeFunc:
  assumes "well_formed w" "allocated w"
  shows "allocated (snd (SubscribeFunc t fn w))"
  unfolding allocated_def
proof (intro allI impI)
  fix t' p assume "Ptr p \<in> set (handlers (snd (SubscribeFunc t fn w)) t')"
  then have "p = nextp w \<or> Ptr p \<in> set (handlers w t')"
    by (auto simp: SubscribeFunc_handlers[OF assms(1)] split: if_splits)
  then show "p < nextp (snd (SubscribeFunc t fn w))"
    using allocatedD[OF assms(2)] by (auto simp: SubscribeFunc_fields less_Suc_eq)
qed

lemma allocated_Unsubscribe:
  assumes "well_formed w" "allocated w" "Unsubscribe t h w = Inr (b, w')"
  shows "allocated w'"
  unfolding allocated_def
proof (intro allI impI)
  fix t' p assume m: "Ptr p \<in> set (handlers w' t')"
  have "Ptr p \<in> set (handlers w t')"
  proof (cases "t' = t")
    case False
    from Unsubscribe_handlers_other[OF assms(1) False assms(3)] m show ?thesis by simp
  next
    case True
    show ?thesis
    proof (cases b)
      case True
      with assms(3) have "Unsubscribe t h w = Inr (True, w')" by simp
      from Unsubscribe_True(2)[OF assms(1) this] m \<open>t' = t\<close> show ?thesis
        by (metis notin_set_remove1)
    next
      case False
      with assms(3) have "Unsubscribe t h w = Inr (False, w')" by simp
      from Unsubscribe_False[OF this] m show ?thesis by simp
    qed
  qed
  from allocatedD[OF assms(2) this] Unsubscribe_fields(1)[OF assms(3)]
  show "p < nextp w'" by simp
qed


text \<open>
  Claim C9, as the code has it. \<^verbatim>\<open>SubscribeFunc(t, fn)\<close> registers a pointer to a newly
  allocated \<^verbatim>\<open>HandlerFunc\<close> holding \<open>fn\<close>: the pointer is in no handler list before the
  call, afterwards it is the last element of the list of \<open>t\<close> and nowhere else, and a
  later \<^verbatim>\<open>SubscribeFunc\<close>, of the same function too, registers another pointer. The
  capability the call returned removes the registration. \<^verbatim>\<open>Unsubscribe(t, h')\<close> with
  any other handler \<open>h'\<close>, when it returns, leaves the registration in place and
  returns false unless \<open>h'\<close> is itself in the list of \<open>t\<close>.
\<close>

theorem SubscribeFunc_registers_new_pointer:
  assumes "well_formed w" "allocated w"
  shows "fst (SubscribeFunc t fn w) = UnsubscribeFunc t (Ptr (nextp w)) \<and>
         body (snd (SubscribeFunc t fn w)) (Ptr (nextp w)) = fn \<and>
         (\<forall>t'. Ptr (nextp w) \<notin> set (handlers w t')) \<and>
         (\<forall>t'. handlers (snd (SubscribeFunc t fn w)) t' =
                  (if t' = t then handlers w t @ [Ptr (nextp w)] else handlers w t')) \<and>
         (\<forall>cs d w2 t2 fn2. run (nested d) cs (snd (SubscribeFunc t fn w)) = Inr w2 \<longrightarrow>
            fst (SubscribeFunc t2 fn2 w2) = UnsubscribeFunc t2 (Ptr (Suc (nextp w)))) \<and>
         (\<forall>h' b w2. h' \<noteq> Ptr (nextp w) \<longrightarrow>
            Unsubscribe t h' (snd (SubscribeFunc t fn w)) = Inr (b, w2) \<longrightarrow>
            b = (h' \<in> set (handlers w t)) \<and> count_list (handlers w2 t) (Ptr (nextp w)) = 1) \<and>
         (\<exists>w2. call_unsubscribe (fst (SubscribeFunc t fn w)) (snd (SubscribeFunc t fn w)) =
                  Inr (True, w2) \<and> handlers w2 t = handlers w t)"
proof -
  let ?W = "Ptr (nextp w)"
  let ?w1 = "snd (SubscribeFunc t fn w)"
  have w1: "well_formed ?w1" by (rule SubscribeFunc_wf[OF assms(1)])
  have fresh: "?W \<notin> set (handlers w t')" for t'
    using allocatedD[OF assms(2), of "nextp w" t'] by auto
  have hs: "handlers ?w1 t = handlers w t @ [?W]"
    by (simp add: SubscribeFunc_handlers[OF assms(1)])
  have one: "count_list (handlers ?w1 t) ?W = 1"
    using fresh[of t] by (simp add: hs)
  have later: "fst (SubscribeFunc t2 fn2 w2) = UnsubscribeFunc t2 (Ptr (Suc (nextp w)))"
    if r: "run (nested d) cs ?w1 = Inr w2" for cs d w2 t2 fn2
  proof -
    have "nextp ?w1 = Suc (nextp w)" by (rule SubscribeFunc_fields(1))
    from run_kept[where I = "\<lambda>w. nextp w = Suc (nextp w0)" for w0,
        OF kept_nextp nested_kept[OF kept_nextp] this _ r]
    have "nextp w2 = Suc (nextp w)" by simp
    then show ?thesis by (simp add: SubscribeFunc_cap)
  qed
  have other: "b = (h' \<in> set (handlers w t)) \<and> count_list (handlers w2 t) ?W = 1"
    if ne: "h' \<noteq> ?W" and u: "Unsubscribe t h' ?w1 = Inr (b, w2)" for h' b w2
  proof (cases b)
    case True
    with u have u': "Unsubscribe t h' ?w1 = Inr (True, w2)" by simp
    from Unsubscribe_True(1,2)[OF w1 u'] ne one True show ?thesis
      by (simp add: hs count_list_remove1_other)
  next
    case False
    with u have u': "Unsubscribe t h' ?w1 = Inr (False, w2)" by simp
    from Unsubscribe_False[OF u'] one False show ?thesis by (simp add: hs)
  qed
  have cp: "comparable ?W" by (simp add: comparable_def)
  from Unsubscribe_comparable[OF w1 cp, of t] obtain w2
    where u: "Unsubscribe t ?W ?w1 = Inr (True, w2)" by (auto simp: hs)
  from Unsubscribe_True(2)[OF w1 u] fresh[of t] have "handlers w2 t = handlers w t"
    by (simp add: hs remove1_snoc)
  with u have own: "\<exists>w2. call_unsubscribe (fst (SubscribeFunc t fn w)) ?w1 = Inr (True, w2) \<and>
      handlers w2 t = handlers w t"
    by (auto simp: SubscribeFunc_cap)
  show ?thesis
    using fresh later other own
    by (simp add: SubscribeFunc_cap SubscribeFunc_fields SubscribeFunc_handlers[OF assms(1)])
qed


theorem SubscribeFunc_registers_new_pointer_witness:
  "well_formed (snd (Subscribe ''t'' (Ptr 2) (NewBus (heap0 idle)))) \<and>
   allocated (snd (Subscribe ''t'' (Ptr 2) (NewBus (heap0 idle)))) \<and>
   fst (SubscribeFunc ''t'' (\<lambda>t v. []) (snd (Subscribe ''t'' (Ptr 2) (NewBus (heap0 idle))))) =
     UnsubscribeFunc ''t'' (Ptr 10) \<and>
   handlers (snd (SubscribeFunc ''t'' (\<lambda>t v. []) (snd (Subscribe ''t'' (Ptr 2) (NewBus (heap0 idle))))))
     ''t'' = [Ptr 2, Ptr 10]"
proof -
  let ?w = "snd (Subscribe ''t'' (Ptr 2) (NewBus (heap0 idle)))"
  have n0: "nextp (NewBus (heap0 idle)) = 10" by (simp add: NewBus_def heap0_def)
  have w: "well_formed ?w" by (intro Subscribe_wf wf_NewBus)
  have a: "allocated ?w"
    by (rule allocated_Subscribe[OF wf_NewBus allocated_NewBus]) (simp add: n0)
  have n: "nextp ?w = 10" by (simp add: Subscribe_fields n0)
  have hs: "handlers ?w ''t'' = [Ptr 2]"
    by (simp add: Subscribe_handlers_same wf_NewBus handlers_NewBus)
  note th = SubscribeFunc_registers_new_pointer[OF w a, of "''t''" "\<lambda>t v. []"]
  have 1: "fst (SubscribeFunc ''t'' (\<lambda>t v. []) ?w) = UnsubscribeFunc ''t'' (Ptr 10)"
    using th[THEN conjunct1] unfolding n .
  have "handlers (snd (SubscribeFunc ''t'' (\<lambda>t v. []) ?w)) ''t'' =
      (if ''t'' = ''t'' then handlers ?w ''t'' @ [Ptr (nextp ?w)] else handlers ?w ''t'')"
    by (rule th[THEN conjunct2, THEN conjunct2, THEN conjunct2, THEN conjunct1, rule_format])
  then have 2: "handlers (snd (SubscribeFunc ''t'' (\<lambda>t v. []) ?w)) ''t'' = [Ptr 2, Ptr 10]"
    unfolding n hs by simp
  from w a 1 2 show ?thesis by (intro conjI)
qed

text \<open>
  The claim's "\<^verbatim>\<open>Unsubscribe\<close> with any handler other than that exact wrapper returns
  false" does not hold when the other handler is itself subscribed to the topic.
\<close>

theorem Unsubscribe_other_handler_true:
  "fst (SubscribeFunc ''t'' (\<lambda>t v. []) (snd (Subscribe ''t'' (Ptr 2) (NewBus (heap0 idle))))) =
     UnsubscribeFunc ''t'' (Ptr 10) \<and>
   Ptr 2 \<noteq> Ptr 10 \<and>
   map_sum id fst (Unsubscribe ''t'' (Ptr 2)
     (snd (SubscribeFunc ''t'' (\<lambda>t v. []) (snd (Subscribe ''t'' (Ptr 2) (NewBus (heap0 idle))))))) =
     Inr True"
  by (simp add: SubscribeFunc_def Subscribe_def NewBus_def heap0_def Unsubscribe_def elems_def
      go_append_def Let_def)

section \<open>OnceFunc\<close>

lemma range_slice_snoc:
  "range_slice f a i (Suc k) w =
     (case range_slice f a i k w of
        Inl e \<Rightarrow> Inl e
      | Inr w' \<Rightarrow> f (arrays w' a ! (i + k)) w')"
proof (induction k arbitrary: i w)
  case 0
  then show ?case by (simp split: sum.splits)
next
  case (Suc k)
  show ?case
  proof (cases "f (arrays w a ! i) w")
    case (Inl e)
    then show ?thesis by simp
  next
    case (Inr w1)
    have "range_slice f a i (Suc (Suc k)) w = range_slice f a (Suc i) (Suc k) w1"
      using Inr by simp
    also have "\<dots> = (case range_slice f a (Suc i) k w1 of
        Inl e \<Rightarrow> Inl e | Inr w' \<Rightarrow> f (arrays w' a ! (Suc i + k)) w')"
      by (rule Suc.IH)
    also have "range_slice f a (Suc i) k w1 = range_slice f a i (Suc k) w"
      using Inr by simp
    finally show ?thesis by (simp only: add_Suc_right add_Suc)
  qed
qed

lemma Publish_sync:
  "Publish d t v [] w =
     (case range_over (On (nested d) t v) (fmlookup (topics w) t) w of
        Inl e \<Rightarrow> Inl e
      | Inr w' \<Rightarrow> Inr ((len (fmlookup (topics w) t), None), w'))"
  by (simp add: Publish_def Publish_with_def Let_def)

lemma run_append:
  "run P (xs @ ys) w = (case run P xs w of Inl e \<Rightarrow> Inl e | Inr w' \<Rightarrow> run P ys w')"
  by (induction xs arbitrary: w) (simp_all split: sum.splits)

lemma run_elsewhere:
  "well_formed w \<Longrightarrow>
   \<forall>c\<in>set cs. (\<exists>t' h. t' \<noteq> t \<and> c = CSubscribe t' h) \<or>
              (\<exists>t' h. t' \<noteq> t \<and> comparable h \<and> c = CUnsubscribe t' h) \<Longrightarrow>
   \<exists>w'. run P cs w = Inr w' \<and> well_formed w' \<and> handlers w' t = handlers w t \<and>
        body w' = body w \<and> calls w' = calls w"
proof (induction cs arbitrary: w)
  case Nil
  then show ?case by simp
next
  case (Cons c cs)
  from Cons.prems(2) consider
    (sub) t' h where "t' \<noteq> t" "c = CSubscribe t' h"
  | (unsub) t' h where "t' \<noteq> t" "comparable h" "c = CUnsubscribe t' h"
    by auto
  then obtain w1 where s: "step P c w = Inr w1" and w1: "well_formed w1"
    and h1: "handlers w1 t = handlers w t" and b1: "body w1 = body w" and c1: "calls w1 = calls w"
  proof cases
    case sub
    have ne: "t \<noteq> t'" using sub(1) by simp
    show ?thesis
      by (rule that[of "snd (Subscribe t' h w)"])
         (simp_all add: sub(2) Subscribe_wf[OF Cons.prems(1)]
            Subscribe_handlers_other[OF Cons.prems(1) ne] Subscribe_fields)
  next
    case unsub
    have ne: "t \<noteq> t'" using unsub(1) by simp
    from Unsubscribe_comparable[OF Cons.prems(1) unsub(2), of t'] obtain w1
      where u: "Unsubscribe t' h w = Inr (h \<in> set (handlers w t'), w1)" by blast
    show ?thesis
      by (rule that[of w1])
         (simp_all add: unsub(3) u Unsubscribe_wf[OF Cons.prems(1) u]
            Unsubscribe_handlers_other[OF Cons.prems(1) ne u] Unsubscribe_fields[OF u])
  qed
  from Cons.IH[OF w1] Cons.prems(2) obtain w' where
    "run P cs w1 = Inr w'" "well_formed w'" "handlers w' t = handlers w1 t"
    "body w' = body w1" "calls w' = calls w1" by auto
  with s h1 b1 c1 show ?case by simp
qed

lemma Publish_last_unsubscribes:
  assumes wf: "well_formed w" and hs: "handlers w t = hs @ [Ptr q]" and nin: "Ptr q \<notin> set hs"
    and idle: "\<forall>h\<in>set hs. h \<noteq> HNil \<and> body w h t v = []"
    and bw: "body w (Ptr q) t v = cs @ [CUnsubscribe t (Ptr q)]"
    and cs: "\<forall>c\<in>set cs. (\<exists>t' h. t' \<noteq> t \<and> c = CSubscribe t' h) \<or>
              (\<exists>t' h. t' \<noteq> t \<and> comparable h \<and> c = CUnsubscribe t' h)"
  shows "\<exists>w'. Publish d t v [] w = Inr ((int (length hs) + 1, None), w') \<and>
           calls w' = calls w @ map (\<lambda>h. (h, t, v)) (hs @ [Ptr q]) \<and>
           handlers w' t = hs \<and> well_formed w' \<and> body w' = body w"
proof -
  from hs obtain s where l: "fmlookup (topics w) t = Some s"
    by (cases "fmlookup (topics w) t") (simp_all add: handlers_None)
  let ?arr = "arrays w (sarr s)"
  have cap: "slen s \<le> length ?arr" by (rule wfD(3)[OF wf l])
  have tk: "take (slen s) ?arr = hs @ [Ptr q]" using hs handlers_Some[OF l] by simp
  have n: "slen s = Suc (length hs)"
    using arg_cong[OF tk, of length] cap by simp
  have tk': "take (length hs) ?arr = hs"
    using arg_cong[OF tk, of "take (length hs)"] n by (simp add: min_def)
  have last: "?arr ! length hs = Ptr q"
    using arg_cong[OF tk, of "\<lambda>xs. xs ! length hs"] n by simp
  let ?w1 = "w\<lparr>calls := calls w @ map (\<lambda>h. (h, t, v)) hs\<rparr>"
  have b: "0 + length hs \<le> length ?arr" using cap n by simp
  have i: "\<forall>h\<in>set (take (length hs) (drop 0 ?arr)). h \<noteq> HNil \<and> body w h t v = []"
    using idle by (simp add: tk')
  have first: "range_slice (On (nested d) t v) (sarr s) 0 (length hs) w = Inr ?w1"
    using range_slice_On_idle[OF b i, of "nested d"] by (simp add: tk')
  let ?w2 = "w\<lparr>calls := calls w @ map (\<lambda>h. (h, t, v)) (hs @ [Ptr q])\<rparr>"
  have w2: "well_formed ?w2" using wf by simp
  from run_elsewhere[OF w2 cs, of "nested d"] obtain w3 where
    r3: "run (nested d) cs ?w2 = Inr w3" and w3: "well_formed w3"
    and h3: "handlers w3 t = hs @ [Ptr q]" and b3: "body w3 = body w"
    and c3: "calls w3 = calls w @ map (\<lambda>h. (h, t, v)) (hs @ [Ptr q])"
    using hs by auto
  have c: "comparable (Ptr q)" by (simp add: comparable_def)
  from Unsubscribe_comparable[OF w3 c, of t] obtain w'
    where u: "Unsubscribe t (Ptr q) w3 = Inr (True, w')" by (auto simp: h3)
  have on: "On (nested d) t v (Ptr q) ?w1 = Inr w'"
    using u r3 by (simp add: On_def bw run_append)
  have "range_slice (On (nested d) t v) (sarr s) 0 (Suc (length hs)) w = Inr w'"
    unfolding range_slice_snoc first using on by (simp add: last)
  then have p: "Publish d t v [] w = Inr ((int (length hs) + 1, None), w')"
    by (simp add: Publish_sync l range_over_def n len_def)
  have 1: "calls w' = calls w @ map (\<lambda>h. (h, t, v)) (hs @ [Ptr q])"
    using Unsubscribe_fields(3)[OF u] c3 by simp
  have 2: "handlers w' t = hs"
    using Unsubscribe_True(2)[OF w3 u] nin by (simp add: h3 remove1_snoc)
  have 3: "well_formed w'" by (rule Unsubscribe_wf[OF w3 u])
  have 4: "body w' = body w" using Unsubscribe_fields(2)[OF u] b3 by simp
  from p 1 2 3 4 show ?thesis by blast
qed

lemma kept_once_done: "kept (\<lambda>p. once_done p = x) (\<lambda>c. True)"
  unfolding kept_def
  by (auto simp: Subscribe_once_done dest: Unsubscribe_once_done)

lemma SubscribeFunc_once_done: "once_done (snd (SubscribeFunc t fn p)) = once_done p"
  by (simp add: SubscribeFunc_def Subscribe_once_done)


lemma getDefaultBus_fields:
  "nextp (getDefaultBus p) = nextp p" "calls (getDefaultBus p) = calls p"
  by (simp_all add: getDefaultBus_def NewBus_def)

lemma getDefaultBus_done: "once_done p \<Longrightarrow> getDefaultBus p = p"
  by (simp add: getDefaultBus_def)

text \<open>
  Where a handler registered with \<^verbatim>\<open>OnceFunc\<close> is called once: after
  \<^verbatim>\<open>OnceFunc(t, fn)\<close> on the default bus, where \<open>fn\<close> calls the bus at most to
  subscribe and unsubscribe handlers of other topics and the other handlers of \<open>t\<close>
  make no call on the bus for \<open>(t, v)\<close>, the first \<^verbatim>\<open>Publish(t, v)\<close> calls the other
  handlers and then the registered wrapper, which is not among them, exactly once, and
  counts it; the second \<^verbatim>\<open>Publish(t, v)\<close> calls the other handlers only and counts
  them only: count 0 when there is none.
\<close>

lemma OnceFunc_called_once:
  assumes "well_formed (getDefaultBus p)" "allocated (getDefaultBus p)"
    and "\<forall>h\<in>set (handlers (getDefaultBus p) t). h \<noteq> HNil \<and> body (getDefaultBus p) h t v = []"
    and "\<forall>c\<in>set (fn t v). (\<exists>t' h. t' \<noteq> t \<and> c = CSubscribe t' h) \<or>
              (\<exists>t' h. t' \<noteq> t \<and> comparable h \<and> c = CUnsubscribe t' h)"
  shows "\<exists>p2 p3.
      Publish_default d t v [] (snd (OnceFunc t fn p)) =
        Inr ((int (length (handlers (getDefaultBus p) t)) + 1, None), p2) \<and>
      calls p2 = calls p @ map (\<lambda>h. (h, t, v)) (handlers (getDefaultBus p) t @ [Ptr (nextp p)]) \<and>
      Ptr (nextp p) \<notin> set (handlers (getDefaultBus p) t) \<and>
      Publish_default d t v [] p2 =
        Inr ((int (length (handlers (getDefaultBus p) t)), None), p3) \<and>
      calls p3 = calls p2 @ map (\<lambda>h. (h, t, v)) (handlers (getDefaultBus p) t)"
proof -
  let ?q = "getDefaultBus p"
  let ?hs = "handlers ?q t"
  let ?fn = "\<lambda>t' v'. fn t' v' @ [CUnsubscribe t (Ptr (nextp ?q))]"
  let ?p1 = "snd (SubscribeFunc t ?fn ?q)"
  have p1: "snd (OnceFunc t fn p) = ?p1" by (simp add: OnceFunc_def Let_def)
  have np: "nextp ?q = nextp p" by (rule getDefaultBus_fields)
  have fresh: "Ptr (nextp ?q) \<notin> set ?hs"
    using allocatedD[OF assms(2), of "nextp ?q" t] by auto
  have w1: "well_formed ?p1" by (rule SubscribeFunc_wf[OF assms(1)])
  have h1: "handlers ?p1 t = ?hs @ [Ptr (nextp ?q)]"
    by (simp add: SubscribeFunc_handlers[OF assms(1)])
  have b1: "body ?p1 = (body ?q)(Ptr (nextp ?q) := ?fn)" by (rule SubscribeFunc_fields(2))
  have i1: "\<forall>h\<in>set ?hs. h \<noteq> HNil \<and> body ?p1 h t v = []"
    using assms(3) fresh by (auto simp: b1)
  have bw: "body ?p1 (Ptr (nextp ?q)) t v = fn t v @ [CUnsubscribe t (Ptr (nextp ?q))]"
    by (simp add: b1)
  have c1: "calls (snd (SubscribeFunc t f ?q)) = calls p" for f
    by (simp add: SubscribeFunc_def Subscribe_fields getDefaultBus_fields)
  have d1: "once_done ?p1" by (simp add: SubscribeFunc_once_done getDefaultBus_once_done)
  from Publish_last_unsubscribes[OF w1 h1 fresh i1 bw assms(4), of d] obtain p2 where
    pub1: "Publish d t v [] ?p1 = Inr ((int (length ?hs) + 1, None), p2)"
    and c2: "calls p2 = calls ?p1 @ map (\<lambda>h. (h, t, v)) (?hs @ [Ptr (nextp ?q)])"
    and h2: "handlers p2 t = ?hs" and w2: "well_formed p2" and b2: "body p2 = body ?p1"
    by blast
  have d2: "once_done p2 = True"
    by (rule Publish_kept[where I = "\<lambda>p. once_done p = True", OF kept_once_done _ pub1])
       (simp add: d1)
  have i2: "\<forall>h\<in>set (handlers p2 t). h \<noteq> HNil \<and> body p2 h t v = []"
    using i1 by (simp add: h2 b2)
  have na: "\<not> foldl (OR) 0 [] AND Async \<noteq> 0" by simp
  let ?p3 = "p2\<lparr>calls := calls p2 @ map (\<lambda>h. (h, t, v)) ?hs\<rparr>"
  have pub2: "Publish d t v [] p2 = Inr ((int (length ?hs), None), ?p3)"
    using Publish_idle[OF w2 na i2, of d] by (simp add: h2)
  have 1: "Publish_default d t v [] (snd (OnceFunc t fn p)) =
      Inr ((int (length ?hs) + 1, None), p2)"
    using pub1 by (simp add: Publish_default_def p1 getDefaultBus_done[OF d1])
  have 2: "calls p2 = calls p @ map (\<lambda>h. (h, t, v)) (?hs @ [Ptr (nextp p)])"
    using c2 by (simp add: c1 np)
  have 3: "Ptr (nextp p) \<notin> set ?hs" using fresh unfolding np .
  have 4: "Publish_default d t v [] p2 = Inr ((int (length ?hs), None), ?p3)"
    using pub2 d2 by (simp add: Publish_default_def getDefaultBus_done)
  have 5: "calls ?p3 = calls p2 @ map (\<lambda>h. (h, t, v)) ?hs" by simp
  from 1 2 3 4 5 show ?thesis by blast
qed


lemma OnceFunc_called_once_example:
  "well_formed (getDefaultBus process0) \<and> allocated (getDefaultBus process0) \<and>
   (\<exists>p2 p3.
      Publish_default 0 ''test'' ''hello'' [] (snd (OnceFunc ''test'' (\<lambda>t v. []) process0)) =
        Inr ((1, None), p2) \<and>
      calls p2 = [(Ptr 10, ''test'', ''hello'')] \<and>
      Publish_default 0 ''test'' ''hello'' [] p2 = Inr ((0, None), p3) \<and>
      calls p3 = [(Ptr 10, ''test'', ''hello'')])"
proof -
  have nd: "\<not> once_done process0" by (simp add: process0_def)
  have w: "well_formed (getDefaultBus process0)" by (simp add: getDefaultBus_def nd wf_NewBus)
  have hs: "handlers (getDefaultBus process0) t = []" for t
    by (rule getDefaultBus_first[OF nd])
  have a: "allocated (getDefaultBus process0)" by (simp add: allocated_def hs)
  have i: "\<forall>h\<in>set (handlers (getDefaultBus process0) ''test'').
      h \<noteq> HNil \<and> body (getDefaultBus process0) h ''test'' ''hello'' = []"
    by (simp add: hs)
  have n: "nextp process0 = 10" and c: "calls process0 = []" by (simp_all add: process0_def)
  have f: "\<forall>c\<in>set ((\<lambda>t v. []) ''test'' ''hello'').
      (\<exists>t' h. t' \<noteq> ''test'' \<and> c = (CSubscribe t' h :: (string, string) cmd)) \<or>
      (\<exists>t' h. t' \<noteq> ''test'' \<and> comparable h \<and> c = CUnsubscribe t' h)"
    by simp
  from OnceFunc_called_once[OF w a i f, of 0, unfolded hs n c]
  have "\<exists>p2 p3.
      Publish_default 0 ''test'' ''hello'' [] (snd (OnceFunc ''test'' (\<lambda>t v. []) process0)) =
        Inr ((1, None), p2) \<and>
      calls p2 = [(Ptr 10, ''test'', ''hello'')] \<and>
      Publish_default 0 ''test'' ''hello'' [] p2 = Inr ((0, None), p3) \<and>
      calls p3 = [(Ptr 10, ''test'', ''hello'')]"
    by auto
  with w a show ?thesis by (intro conjI)
qed

text \<open>
  Claim C8 does not hold of the code when the topic has other handlers that unsubscribe
  during the publish, handlers registered with \<^verbatim>\<open>OnceFunc\<close> among them. With three
  functions registered with \<^verbatim>\<open>OnceFunc\<close> on one topic, the first \<^verbatim>\<open>Publish\<close> returns
  count 3 and has called the first wrapper once, the third twice and the second not at
  all; the second \<^verbatim>\<open>Publish\<close> returns count 1 and calls the second wrapper. The
  wrappers unsubscribe themselves while \<^verbatim>\<open>Publish\<close> ranges over the backing array
  that \<^verbatim>\<open>Unsubscribe\<close> moves the elements in.
\<close>

theorem OnceFunc_skipped_and_called_twice:
  "handlers three_once ''t'' = [Ptr 10, Ptr 11, Ptr 12] \<and>
   (\<exists>p1 p2.
      Publish_default 0 ''t'' ''v'' [] three_once = Inr ((3, None), p1) \<and>
      map fst (calls p1) = [Ptr 10, Ptr 12, Ptr 12] \<and>
      handlers p1 ''t'' = [Ptr 11] \<and>
      Publish_default 0 ''t'' ''v'' [] p1 = Inr ((1, None), p2) \<and>
      map fst (calls p2) = [Ptr 10, Ptr 12, Ptr 12, Ptr 11])"
  by (simp add: three_once_def OnceFunc_def SubscribeFunc_def Publish_default_def getDefaultBus_def
      process0_def Subscribe_def NewBus_def handlers_def elems_def go_append_def Publish_def
      Publish_with_def range_over_def On_def Unsubscribe_def len_def Let_def numeral_3_eq_3)

end
